theory Spec2Isabelle
  imports Complex_Main "HOL-Library.Multiset" "HOL-Library.Product_Lexorder"
    "HOL-Library.List_Lexorder" "HOL-Library.Char_ord"
begin

section \<open>Values, errors and the interpreter's iteration orders\<close>

text \<open>
  The program is Python 2 (\<^verbatim>\<open>print\<close> statements, \<^verbatim>\<open>xrange\<close>, the builtin
  \<^verbatim>\<open>reduce\<close>). Its integers are unbounded (\<open>int\<close>), \<^verbatim>\<open>/\<close> on two integers is
  floor division (\<open>div\<close>), and a raised exception is the \<open>Inl\<close> branch of a sum.
\<close>

datatype error = AssertionError | ValueError | TypeError | KeyError | ZeroDivisionError

text \<open>
  Objects live in a store: a list of field records, an object's reference being its
  index. Objects of the program's classes define neither \<^verbatim>\<open>__eq__\<close>, \<^verbatim>\<open>__hash__\<close> nor
  \<^verbatim>\<open>__cmp__\<close>, so Python 2 compares, hashes and orders them by address: equality of
  references is identity, and \<open>\<le>\<close> on references is the order of addresses.
\<close>

type_synonym ref = nat

text \<open>
  Python 2 enumerates a \<^verbatim>\<open>set\<close> and a \<^verbatim>\<open>dict\<close> in an order fixed by the interpreter
  (hash values, table size), not by the program. The model takes these orders as
  parameters: \<open>iter_objs\<close> and \<open>iter_strs\<close> enumerate a set of objects and a set of
  strings, \<open>iter_t2e\<close> and \<open>iter_e2t\<close> enumerate the entries of the two dictionaries
  of \<^verbatim>\<open>process_chunk\<close> that are iterated, given in insertion order.
\<close>

record runtime =
  iter_objs :: "ref set \<Rightarrow> ref list"
  iter_strs :: "string set \<Rightarrow> string list"
  iter_t2e :: "(string \<times> string list) list \<Rightarrow> (string \<times> string list) list"
  iter_e2t :: "(string list \<times> string list) list \<Rightarrow> (string list \<times> string list) list"

text \<open>What every interpreter guarantees: an enumeration visits each element once.\<close>

definition wf_runtime :: "runtime \<Rightarrow> bool" where
  "wf_runtime rt \<longleftrightarrow>
     (\<forall>S. finite S \<longrightarrow> set (iter_objs rt S) = S \<and> distinct (iter_objs rt S)) \<and>
     (\<forall>S. finite S \<longrightarrow> set (iter_strs rt S) = S \<and> distinct (iter_strs rt S)) \<and>
     (\<forall>d. mset (iter_t2e rt d) = mset d) \<and>
     (\<forall>d. mset (iter_e2t rt d) = mset d)"

text \<open>One such interpreter, used to run the model on concrete inputs: sets are
  enumerated in increasing order, dictionaries in insertion order.\<close>

definition sorted_runtime :: runtime where
  "sorted_runtime =
     \<lparr>iter_objs = sorted_list_of_set, iter_strs = sorted_list_of_set,
      iter_t2e = (\<lambda>d. d), iter_e2t = (\<lambda>d. d)\<rparr>"

text \<open>\<^verbatim>\<open>sep.join(xs)\<close>\<close>

fun str_join :: "string \<Rightarrow> string list \<Rightarrow> string" where
  "str_join sep [] = []"
| "str_join sep [x] = x"
| "str_join sep (x # y # ys) = x @ sep @ str_join sep (y # ys)"

text \<open>\<^verbatim>\<open>xs.remove(x)\<close>: the first occurrence goes, \<^verbatim>\<open>ValueError\<close> when there is none.\<close>

definition list_remove :: "'a list \<Rightarrow> 'a \<Rightarrow> error + 'a list" where
  "list_remove xs x = (if x \<in> set xs then Inr (remove1 x xs) else Inl ValueError)"

section \<open>Genomic features\<close>

text \<open>
  The fields of \<^verbatim>\<open>GenomicObject\<close> and \<^verbatim>\<open>Exon\<close> (\<open>id\<close>, \<open>end\<close> and \<open>length\<close> carry
  the suffix \<open>_f\<close>). Identifiers, names and chromosomes are strings and strands are
  integers, as \<^verbatim>\<open>parse_gtf\<close> builds them and as the constructor's defaults are; for a
  string identifier the \<^verbatim>\<open>isinstance(self.id,int)\<close> promotion of \<^verbatim>\<open>__and__\<close> does not
  apply. \<open>transcripts\<close> is a list; where the program stores a \<^verbatim>\<open>set\<close> in the field,
  the list is the set's enumeration.
\<close>

record exon =
  id_f :: string
  gene_id :: string
  gene_name :: string
  chrom :: string
  start :: int
  end_f :: int
  name :: string
  score :: real
  strand :: int
  length_f :: int
  multiplicity :: int
  transcripts :: "string list"

type_synonym heap = "exon list"

text \<open>
  \<^verbatim>\<open>Exon.__init__(transcripts, **args)\<close> after \<^verbatim>\<open>GenomicObject.__init__\<close>: the fields
  are stored and \<open>length\<close> is set to \<open>end - start\<close>, whatever \<open>length\<close> was passed.
\<close>

definition Exon ::
  "string list \<Rightarrow> string \<Rightarrow> string \<Rightarrow> string \<Rightarrow> string \<Rightarrow> int \<Rightarrow> int \<Rightarrow> string \<Rightarrow> real \<Rightarrow> int
     \<Rightarrow> int \<Rightarrow> exon" where
  "Exon ts i gid gname chr s e nm sc st mu =
     \<lparr>id_f = i, gene_id = gid, gene_name = gname, chrom = chr, start = s, end_f = e,
      name = nm, score = sc, strand = st, length_f = e - s, multiplicity = mu,
      transcripts = ts\<rparr>"

text \<open>
  \<^verbatim>\<open>GenomicObject.__and__\<close> on two exons: the assertion on the chromosomes, then
  \<^verbatim>\<open>self.__class__(id=..., gene_id=..., gene_name=..., chrom=..., name=..., strand=...,
  multiplicity=...)\<close>. The arguments not passed take the constructor's defaults:
  \<open>start = 0\<close>, \<open>end = 0\<close>, \<open>score = 0.0\<close>, \<open>transcripts = set()\<close>; hence
  \<open>length = 0\<close>. The strand is \<^verbatim>\<open>(self.strand + other.strand)/2\<close> on integers.
\<close>

definition GenomicObject_and :: "runtime \<Rightarrow> exon \<Rightarrow> exon \<Rightarrow> error + exon" where
  "GenomicObject_and rt self other =
     (if chrom self \<noteq> chrom other then Inl AssertionError
      else Inr (Exon []
             (id_f self @ id_f other)
             (str_join ''|'' (iter_strs rt {gene_id self, gene_id other}))
             (str_join ''|'' (iter_strs rt {gene_name self, gene_name other}))
             (chrom self) 0 0
             (str_join ''|'' [name self, name other])
             0
             ((strand self + strand other) div 2)
             (multiplicity self + multiplicity other)))"

text \<open>\<^verbatim>\<open>Exon.__and__\<close>: the merged object, its transcripts the union of the two sets.\<close>

definition Exon_and :: "runtime \<Rightarrow> exon \<Rightarrow> exon \<Rightarrow> error + exon" where
  "Exon_and rt self other =
     (case GenomicObject_and rt self other of
        Inl err \<Rightarrow> Inl err
      | Inr E \<Rightarrow>
          Inr (E\<lparr>transcripts :=
                 iter_strs rt (set (transcripts self) \<union> set (transcripts other))\<rparr>))"

section \<open>Cobbling\<close>

text \<open>\<^verbatim>\<open>reduce(lambda x,y: x&y, feats)\<close>: \<^verbatim>\<open>TypeError\<close> on the empty sequence, else
  the left fold; the intermediate merged objects are unreachable afterwards, so only
  the last one is put into the store by the caller.\<close>

fun reduce_from :: "runtime \<Rightarrow> exon \<Rightarrow> exon list \<Rightarrow> error + exon" where
  "reduce_from rt x [] = Inr x"
| "reduce_from rt x (y # ys) =
     (case Exon_and rt x y of Inl err \<Rightarrow> Inl err | Inr z \<Rightarrow> reduce_from rt z ys)"

fun reduce_and :: "runtime \<Rightarrow> exon list \<Rightarrow> error + exon" where
  "reduce_and rt [] = Inl TypeError"
| "reduce_and rt (x # xs) = reduce_from rt x xs"

text \<open>
  \<^verbatim>\<open>intersect_exons_list(feats, multiple)\<close> returns a new object in both branches: a
  deep copy of the only feature, or the merged object. The result is the store with
  the new object appended, and its reference.
\<close>

definition intersect_exons_list :: "runtime \<Rightarrow> heap \<Rightarrow> ref list \<Rightarrow> bool \<Rightarrow> error + heap \<times> ref" where
  "intersect_exons_list rt h feats multiple =
     (let feats' = (if \<not> multiple then iter_objs rt (set feats) else feats) in
      if length feats' = 1 then Inr (h @ [h ! (feats' ! 0)], length h)
      else (case reduce_and rt (map (\<lambda>r. h ! r) feats') of
              Inl err \<Rightarrow> Inl err
            | Inr E \<Rightarrow> Inr (h @ [E], length h)))"

text \<open>
  The boundary events of \<^verbatim>\<open>cobble\<close>, after \<^verbatim>\<open>ends.sort()\<close>: triples
  \<open>(position, kind, exon)\<close> with kind 1 for a start and 0 for an end, ordered as
  Python orders tuples (lexicographically, the exon objects by address).
\<close>

type_synonym event = "int \<times> nat \<times> ref"

definition ends :: "heap \<Rightarrow> ref list \<Rightarrow> event list" where
  "ends h exons =
     sort (map (\<lambda>e. (start (h ! e), 1, e)) exons @ map (\<lambda>e. (end_f (h ! e), 0, e)) exons)"

text \<open>
  The loop \<^verbatim>\<open>for i in xrange(len(ends)-1)\<close> with \<open>a = ends[i]\<close>, \<open>b = ends[i+1]\<close>, as a
  recursion on the remaining events; the last event is never \<open>a\<close>. The call of
  \<^verbatim>\<open>intersect_exons_list\<close> passes no \<open>multiple\<close>, which is then \<open>False\<close>.
\<close>

fun cobble_loop ::
  "runtime \<Rightarrow> event list \<Rightarrow> heap \<Rightarrow> ref list \<Rightarrow> ref list \<Rightarrow> error + heap \<times> ref list" where
  "cobble_loop rt (a # b # es) h active_exons cobbled =
     (case (if fst (snd a) = 1 then Inr (active_exons @ [snd (snd a)])
            else if fst (snd a) = 0 then list_remove active_exons (snd (snd a))
            else Inr active_exons) of
        Inl err \<Rightarrow> Inl err
      | Inr active \<Rightarrow>
          if length active = 0 then cobble_loop rt (b # es) h active cobbled
          else if fst a = fst b then cobble_loop rt (b # es) h active cobbled
          else (case intersect_exons_list rt h active False of
                  Inl err \<Rightarrow> Inl err
                | Inr (h', e) \<Rightarrow>
                    cobble_loop rt (b # es)
                      (h'[e := (h' ! e)\<lparr>start := fst a, end_f := fst b\<rparr>])
                      active (cobbled @ [e])))"
| "cobble_loop rt es h active_exons cobbled = Inr (h, cobbled)"

text \<open>\<^verbatim>\<open>cobble(exons, multiple)\<close>: the store after the call and the references of the
  pieces. The parameter \<open>multiple\<close> is not used by the body.\<close>

definition cobble :: "runtime \<Rightarrow> heap \<Rightarrow> ref list \<Rightarrow> bool \<Rightarrow> error + heap \<times> ref list" where
  "cobble rt h exons multiple = cobble_loop rt (ends h exons) h [] []"

section \<open>Similar transcripts and the structure matrix\<close>

text \<open>
  The blocks of \<^verbatim>\<open>process_chunk\<close> between the call of \<^verbatim>\<open>cobble\<close> and the matrix
  \<^verbatim>\<open>Avals\<close>, as functions of the list of pieces (the pieces are distinct new objects,
  so the list of their field records stands for them). A dictionary is the list of its
  entries in insertion order, with distinct keys.
\<close>

text \<open>\<^verbatim>\<open>d.setdefault(k,[]).append(v)\<close>\<close>

definition setdefault_append :: "('k \<times> 'v list) list \<Rightarrow> 'k \<Rightarrow> 'v \<Rightarrow> ('k \<times> 'v list) list" where
  "setdefault_append d k v =
     (case map_of d k of
        None \<Rightarrow> d @ [(k, [v])]
      | Some vs \<Rightarrow> map (\<lambda>kv. if fst kv = k then (fst kv, snd kv @ [v]) else kv) d)"

text \<open>\<^verbatim>\<open>dict(pairs)\<close>, where a later pair replaces an earlier one with the same key,
  and \<^verbatim>\<open>d.get(k, k)\<close>.\<close>

definition dict_of :: "('k \<times> 'v) list \<Rightarrow> ('k \<rightharpoonup> 'v)" where
  "dict_of pairs = map_of (rev pairs)"

definition get_or_self :: "('k \<rightharpoonup> 'k) \<Rightarrow> 'k \<Rightarrow> 'k" where
  "get_or_self d k = (case d k of None \<Rightarrow> k | Some v \<Rightarrow> v)"

text \<open>\<^verbatim>\<open>t2e\<close>: for each transcript the identifiers of the pieces it is in, the pieces
  with \<open>length < 100\<close> left out.\<close>

definition t2e :: "exon list \<Rightarrow> (string \<times> string list) list" where
  "t2e pieces =
     fold (\<lambda>p d. if length_f p < 100 then d
                  else fold (\<lambda>t d. setdefault_append d t (id_f p)) (transcripts p) d)
       pieces []"

text \<open>\<^verbatim>\<open>e2t\<close>: the transcripts of each sorted tuple of piece identifiers, in the order
  in which \<^verbatim>\<open>t2e.iteritems()\<close> yields them.\<close>

definition e2t :: "runtime \<Rightarrow> (string \<times> string list) list \<Rightarrow> (string list \<times> string list) list" where
  "e2t rt d = fold (\<lambda>te d'. setdefault_append d' (sort (snd te)) (fst te)) (iter_t2e rt d) []"

text \<open>The pairs of the generator in \<^verbatim>\<open>tx_replace = dict(...)\<close>: every transcript of
  a group but the first, with the first.\<close>

definition tx_replace :: "runtime \<Rightarrow> (string list \<times> string list) list \<Rightarrow> (string \<times> string) list" where
  "tx_replace rt d =
     concat (map (\<lambda>tlist. map (\<lambda>badt. (badt, tlist ! 0))
                            (filter (\<lambda>badt. length tlist > 1) (drop 1 tlist)))
               (map snd (iter_e2t rt d)))"

text \<open>
  The loop that rewrites the pieces: \<open>filtered\<close> is the set of the replaced
  transcripts of a piece, the piece gets \<^verbatim>\<open>list(filtered)\<close>, and \<open>transcripts\<close> is the
  list of the union of these sets. The result is the rewritten pieces and that list.
\<close>

definition filtered :: "runtime \<Rightarrow> exon list \<Rightarrow> exon \<Rightarrow> string set" where
  "filtered rt pieces p =
     set (map (get_or_self (dict_of (tx_replace rt (e2t rt (t2e pieces))))) (transcripts p))"

definition filter_transcripts :: "runtime \<Rightarrow> exon list \<Rightarrow> exon list \<times> string list" where
  "filter_transcripts rt pieces =
     (map (\<lambda>p. p\<lparr>transcripts := iter_strs rt (filtered rt pieces p)\<rparr>) pieces,
      iter_strs rt (\<Union>p\<in>set pieces. filtered rt pieces p))"

text \<open>\<^verbatim>\<open>tp_map\<close>: for each transcript the names of the pieces it is in.\<close>

definition tp_map :: "exon list \<Rightarrow> (string \<times> string list) list" where
  "tp_map pieces =
     fold (\<lambda>p d. fold (\<lambda>tx d. setdefault_append d tx (name p)) (transcripts p) d) pieces []"

text \<open>
  \<^verbatim>\<open>Avals\<close>: one row per piece, one column per transcript, the entry
  \<^verbatim>\<open>float(t in p.transcripts)/len(tp_map[t])\<close>. A missing key raises \<^verbatim>\<open>KeyError\<close>, a
  float division by zero \<^verbatim>\<open>ZeroDivisionError\<close>. The entries are modelled by their
  exact values; the rounding of the floating-point division is not modelled.
\<close>

fun map_err :: "('a \<Rightarrow> error + 'b) \<Rightarrow> 'a list \<Rightarrow> error + 'b list" where
  "map_err f [] = Inr []"
| "map_err f (x # xs) =
     (case f x of
        Inl err \<Rightarrow> Inl err
      | Inr y \<Rightarrow> (case map_err f xs of Inl err \<Rightarrow> Inl err | Inr ys \<Rightarrow> Inr (y # ys)))"

definition Avals_entry :: "(string \<times> string list) list \<Rightarrow> exon \<Rightarrow> string \<Rightarrow> error + real" where
  "Avals_entry tp p t =
     (case map_of tp t of
        None \<Rightarrow> Inl KeyError
      | Some ps \<Rightarrow>
          if length ps = 0 then Inl ZeroDivisionError
          else Inr ((if t \<in> set (transcripts p) then 1 else 0) / real (length ps)))"

definition Avals :: "(string \<times> string list) list \<Rightarrow> string list \<Rightarrow> exon list \<Rightarrow> error + real list list" where
  "Avals tp ts pieces = map_err (\<lambda>p. map_err (Avals_entry tp p) ts) pieces"

text \<open>The matrix of a chunk, from the pieces that \<^verbatim>\<open>cobble\<close> returned.\<close>

definition structure_matrix :: "runtime \<Rightarrow> exon list \<Rightarrow> error + real list list" where
  "structure_matrix rt pieces =
     Avals (tp_map (fst (filter_transcripts rt pieces))) (snd (filter_transcripts rt pieces))
       (fst (filter_transcripts rt pieces))"

section \<open>Counting reads\<close>

text \<open>
  An alignment as the counter reads it: its tags (the value of an \<open>NH\<close> tag is an
  integer) and its orientation. The counters \<open>n\<close> and \<open>n_ws\<close> receive \<^verbatim>\<open>1.0/NH\<close>;
  they are modelled by their exact values. \<open>strand_c\<close> is the counter's field
  \<open>strand\<close> and \<open>count_c\<close> its method \<open>count\<close>; \<open>stranded\<close> records which method
  \<open>count_fct\<close> is bound to.
\<close>

record alignment =
  tags :: "(string \<times> int) list"
  is_reverse :: bool

record Counter =
  n :: real
  n_raw :: int
  n_ws :: real
  strand_c :: int
  stranded :: bool

definition Counter_init :: "bool \<Rightarrow> Counter" where
  "Counter_init s = \<lparr>n = 0, n_raw = 0, n_ws = 0, strand_c = 0, stranded = s\<rparr>"

text \<open>\<^verbatim>\<open>[1.0/t[1] for t in alignment.tags if t[0]=='NH']+[1]\<close>: every \<open>NH\<close> tag is
  divided, so a zero raises.\<close>

fun NH_list :: "(string \<times> int) list \<Rightarrow> error + real list" where
  "NH_list [] = Inr [1]"
| "NH_list (t # ts) =
     (if fst t = ''NH'' then
        (if snd t = 0 then Inl ZeroDivisionError
         else (case NH_list ts of Inl err \<Rightarrow> Inl err | Inr ws \<Rightarrow> Inr (1 / real_of_int (snd t) # ws)))
      else NH_list ts)"

definition count_c :: "Counter \<Rightarrow> alignment \<Rightarrow> error + Counter" where
  "count_c self al =
     (case NH_list (tags al) of
        Inl err \<Rightarrow> Inl err
      | Inr NH \<Rightarrow> Inr (self\<lparr>n := n self + NH ! 0, n_raw := n_raw self + 1\<rparr>))"

definition count_stranded :: "Counter \<Rightarrow> alignment \<Rightarrow> error + Counter" where
  "count_stranded self al =
     (case NH_list (tags al) of
        Inl err \<Rightarrow> Inl err
      | Inr NH \<Rightarrow>
          if strand_c self = 1 \<and> is_reverse al = False
             \<or> strand_c self = - 1 \<and> is_reverse al = True
          then Inr (self\<lparr>n := n self + NH ! 0\<rparr>)
          else Inr (self\<lparr>n_ws := n_ws self + NH ! 0\<rparr>))"

text \<open>\<^verbatim>\<open>Counter.__call__\<close>\<close>

definition Counter_call :: "Counter \<Rightarrow> alignment \<Rightarrow> error + Counter" where
  "Counter_call self al = (if stranded self then count_stranded self al else count_c self al)"

section \<open>Sample inputs\<close>

text \<open>
  Two overlapping exons of one gene on one chromosome, \<open>[0,100)\<close> of transcript
  \<open>T1\<close> and \<open>[50,150)\<close> of transcript \<open>T2\<close>, and an exon of another chromosome.
\<close>

definition exon_E1 :: exon where
  "exon_E1 = Exon [''T1''] ''E1'' ''G1'' ''Gapdh'' ''chr6'' 0 100 ''E1'' 0 1 1"

definition exon_E2 :: exon where
  "exon_E2 = Exon [''T2''] ''E2'' ''G1'' ''Gapdh'' ''chr6'' 50 150 ''E2'' 0 1 1"

definition exon_E3 :: exon where
  "exon_E3 = Exon [''T3''] ''E3'' ''G2'' ''Actb'' ''chr5'' 0 100 ''E3'' 0 0 1"

text \<open>
  Pieces as \<^verbatim>\<open>cobble\<close> returns them for lone exons (deep copies): two pieces of one
  transcript, of lengths 150 and 40; and two pieces with the same identifier (copies of
  two exons annotated with one \<open>exon_id\<close>) and different transcripts.
\<close>

definition piece_P1 :: exon where
  "piece_P1 = Exon [''T1''] ''E1'' ''G1'' ''Gapdh'' ''chr6'' 0 150 ''E1'' 0 1 1"

definition piece_P2 :: exon where
  "piece_P2 = Exon [''T1''] ''E2'' ''G1'' ''Gapdh'' ''chr6'' 200 240 ''E2'' 0 1 1"

definition piece_Q1 :: exon where
  "piece_Q1 = Exon [''T1'', ''T3''] ''X'' ''G1'' ''Gapdh'' ''chr6'' 0 100 ''X'' 0 1 1"

definition piece_Q2 :: exon where
  "piece_Q2 = Exon [''T2'', ''T3''] ''X'' ''G1'' ''Gapdh'' ''chr6'' 200 300 ''X'' 0 1 1"

text \<open>Two pieces (copies of two exons) that both belong to the transcripts \<open>T3\<close>
  and \<open>T4\<close>.\<close>

definition piece_R1 :: exon where
  "piece_R1 = Exon [''T3'', ''T4''] ''E5'' ''G1'' ''Gapdh'' ''chr6'' 0 100 ''E5'' 0 1 1"

definition piece_R2 :: exon where
  "piece_R2 = Exon [''T3'', ''T4''] ''E6'' ''G1'' ''Gapdh'' ''chr6'' 200 300 ''E6'' 0 1 1"

section \<open>Descriptions used by the proofs\<close>

text \<open>
  Three functions that describe the loop for the proofs: the active list after an
  event when \<^verbatim>\<open>remove\<close> does not raise, the spans for which the loop emits a piece
  (with the active list at each), and the allocation of the pieces of given spans.
\<close>

definition active_step :: "event \<Rightarrow> ref list \<Rightarrow> ref list" where
  "active_step a active =
     (if fst (snd a) = 1 then active @ [snd (snd a)]
      else if fst (snd a) = 0 then remove1 (snd (snd a)) active
      else active)"

fun removals_ok :: "event list \<Rightarrow> ref list \<Rightarrow> bool" where
  "removals_ok (a # b # es) active =
     ((fst (snd a) = 0 \<longrightarrow> snd (snd a) \<in> set active) \<and>
      removals_ok (b # es) (active_step a active))"
| "removals_ok es active = True"

fun spans :: "event list \<Rightarrow> ref list \<Rightarrow> (int \<times> int \<times> ref list) list" where
  "spans (a # b # es) active =
     (if active_step a active = [] \<or> fst a = fst b then spans (b # es) (active_step a active)
      else (fst a, fst b, active_step a active) # spans (b # es) (active_step a active))"
| "spans es active = []"

fun build ::
  "runtime \<Rightarrow> heap \<Rightarrow> (int \<times> int \<times> ref list) list \<Rightarrow> ref list \<Rightarrow> error + heap \<times> ref list" where
  "build rt h [] cobbled = Inr (h, cobbled)"
| "build rt h (sp # rest) cobbled =
     (case intersect_exons_list rt h (snd (snd sp)) False of
        Inl err \<Rightarrow> Inl err
      | Inr (h', e) \<Rightarrow>
          build rt (h'[e := (h' ! e)\<lparr>start := fst sp, end_f := fst (snd sp)\<rparr>]) rest
            (cobbled @ [e]))"

text \<open>
  The same spans described without the loop: between two consecutive boundary
  positions \<open>p < q\<close>, the exons that reach from \<open>p\<close> to \<open>q\<close>, when there are any.
\<close>

definition covering :: "heap \<Rightarrow> ref list \<Rightarrow> int \<Rightarrow> int \<Rightarrow> ref set" where
  "covering h exons p q = {r \<in> set exons. start (h ! r) \<le> p \<and> q \<le> end_f (h ! r)}"

fun segments :: "heap \<Rightarrow> ref list \<Rightarrow> int list \<Rightarrow> (int \<times> int \<times> ref set) list" where
  "segments h exons (p # q # ps) =
     (if p = q \<or> covering h exons p q = {} then segments h exons (q # ps)
      else (p, q, covering h exons p q) # segments h exons (q # ps))"
| "segments h exons ps = []"

text \<open>
  The two events of an exon, and what the proofs keep track of along the loop: every
  event belongs to an input exon, exons have positive length, and an exon is active
  as often as the remaining events close it more often than they open it.
\<close>

definition open_ev :: "heap \<Rightarrow> ref \<Rightarrow> event" where
  "open_ev h r = (start (h ! r), 1, r)"

definition close_ev :: "heap \<Rightarrow> ref \<Rightarrow> event" where
  "close_ev h r = (end_f (h ! r), 0, r)"

definition genuine :: "heap \<Rightarrow> ref list \<Rightarrow> event list \<Rightarrow> bool" where
  "genuine h exons evs \<longleftrightarrow> (\<forall>ev\<in>set evs. \<exists>r\<in>set exons. ev = open_ev h r \<or> ev = close_ev h r)"

definition positive :: "heap \<Rightarrow> ref list \<Rightarrow> bool" where
  "positive h exons \<longleftrightarrow> (\<forall>r\<in>set exons. start (h ! r) < end_f (h ! r))"

definition balanced :: "heap \<Rightarrow> ref list \<Rightarrow> event list \<Rightarrow> bool" where
  "balanced h active evs \<longleftrightarrow>
     (\<forall>r. count (mset active) r + count (mset evs) (open_ev h r) = count (mset evs) (close_ev h r))"

definition all_events :: "heap \<Rightarrow> ref list \<Rightarrow> event multiset" where
  "all_events h exons = mset (map (open_ev h) exons) + mset (map (close_ev h) exons)"

text \<open>What the claims say about a piece: its interval and its set of transcripts.\<close>

definition summary :: "heap \<Rightarrow> ref \<Rightarrow> int \<times> int \<times> string set" where
  "summary h p = (start (h ! p), end_f (h ! p), set (transcripts (h ! p)))"

definition seg_summary :: "heap \<Rightarrow> int \<times> int \<times> ref set \<Rightarrow> int \<times> int \<times> string set" where
  "seg_summary h sg = (fst sg, fst (snd sg), \<Union>r\<in>snd (snd sg). set (transcripts (h ! r)))"

text \<open>
  The dictionaries built by \<^verbatim>\<open>setdefault(...).append(...)\<close> in a loop, described by the
  list of the (key, value) pairs the loop passes: every key gets the values passed with
  it, in order.
\<close>

definition group_pairs :: "('k \<times> 'v) list \<Rightarrow> ('k \<times> 'v list) list \<Rightarrow> ('k \<times> 'v list) list" where
  "group_pairs kvs d = fold (\<lambda>kv d. setdefault_append d (fst kv) (snd kv)) kvs d"

definition vals_of :: "'k \<Rightarrow> ('k \<times> 'v) list \<Rightarrow> 'v list" where
  "vals_of k kvs = map snd (filter (\<lambda>kv. fst kv = k) kvs)"

text \<open>The number of pieces that contain a transcript.\<close>

definition pieces_with :: "exon list \<Rightarrow> string \<Rightarrow> nat" where
  "pieces_with ps t = length (filter (\<lambda>q. t \<in> set (transcripts q)) ps)"

text \<open>
  For the grouping of transcripts: the identifiers that \<open>t2e\<close> lists for a
  transcript, its signature (their sorted tuple), and the replacement that the loop
  over the pieces applies to each transcript.
\<close>

definition piece_ids :: "exon list \<Rightarrow> string \<Rightarrow> string list" where
  "piece_ids ps t =
     vals_of t (concat (map (\<lambda>p. if length_f p < 100 then []
                                   else map (\<lambda>t. (t, id_f p)) (transcripts p)) ps))"

definition signature :: "exon list \<Rightarrow> string \<Rightarrow> string list" where
  "signature ps t = sort (piece_ids ps t)"

definition replaced :: "runtime \<Rightarrow> exon list \<Rightarrow> string \<Rightarrow> string" where
  "replaced rt ps = get_or_self (dict_of (tx_replace rt (e2t rt (t2e ps))))"

text \<open>The transcripts that \<open>e2t\<close> lists for a signature.\<close>

definition grp :: "runtime \<Rightarrow> exon list \<Rightarrow> string list \<Rightarrow> string list" where
  "grp rt ps s = map fst (filter (\<lambda>te. sort (snd te) = s) (iter_t2e rt (t2e ps)))"

section \<open>The loop of cobble and its spans\<close>

lemma cobble_loop_build:
  "removals_ok evs active \<Longrightarrow> cobble_loop rt evs h active cobbled = build rt h (spans evs active) cobbled"
proof (induction evs active arbitrary: h cobbled rule: spans.induct)
  case (1 a b es active)
  from "1.prems" have ok: "removals_ok (b # es) (active_step a active)"
    and mem: "fst (snd a) = 0 \<longrightarrow> snd (snd a) \<in> set active"
    by simp_all
  have st: "(if fst (snd a) = 1 then Inr (active @ [snd (snd a)])
             else if fst (snd a) = 0 then list_remove active (snd (snd a))
             else Inr active) = Inr (active_step a active)"
    using mem by (simp add: active_step_def list_remove_def)
  show ?case
  proof (cases "active_step a active = [] \<or> fst a = fst b")
    case True
    with "1.IH"(1) [OF True ok] show ?thesis
      by (auto simp only: cobble_loop.simps spans.simps st sum.case list.size length_0_conv if_True if_False split: if_splits)
  next
    case False
    with "1.IH"(2) [OF False ok] show ?thesis
      by (simp only: cobble_loop.simps spans.simps st sum.case length_0_conv if_False build.simps
          fst_conv snd_conv split: sum.splits prod.splits) simp
  qed
qed simp_all

lemma open_close_neq [simp]: "open_ev h r \<noteq> close_ev h r'" "close_ev h r' \<noteq> open_ev h r"
  by (simp_all add: open_ev_def close_ev_def)

lemma open_ev_eq [simp]: "open_ev h r = open_ev h r' \<longleftrightarrow> r = r'"
  by (auto simp: open_ev_def)

lemma close_ev_eq [simp]: "close_ev h r = close_ev h r' \<longleftrightarrow> r = r'"
  by (auto simp: close_ev_def)

lemma open_lt_close: "start (h ! r) < end_f (h ! r) \<Longrightarrow> open_ev h r < close_ev h r"
  by (simp add: open_ev_def close_ev_def less_prod_def)

lemma balanced_step:
  assumes srt: "sorted (a # rest)" and gen: "genuine h exons (a # rest)"
    and pos: "positive h exons" and bal: "balanced h active (a # rest)"
  shows "balanced h (active_step a active) rest"
    and "fst (snd a) = 0 \<longrightarrow> snd (snd a) \<in> set active"
proof -
  from gen obtain r where r: "r \<in> set exons" and a: "a = open_ev h r \<or> a = close_ev h r"
    by (auto simp: genuine_def)
  from a show "balanced h (active_step a active) rest"
  proof
    assume o: "a = open_ev h r"
    have st: "active_step (open_ev h r) active = active @ [r]"
      by (simp add: active_step_def open_ev_def)
    show ?thesis
      unfolding balanced_def
    proof
      fix r'
      from bal have "count (mset active) r' + count (mset (a # rest)) (open_ev h r')
          = count (mset (a # rest)) (close_ev h r')"
        by (simp add: balanced_def)
      then show "count (mset (active_step a active)) r' + count (mset rest) (open_ev h r')
          = count (mset rest) (close_ev h r')"
        using o by (auto simp: st)
    qed
  next
    assume c: "a = close_ev h r"
    have st: "active_step (close_ev h r) active = remove1 r active"
      by (simp add: active_step_def close_ev_def)
    have lt: "open_ev h r < a"
      using pos r c by (simp add: positive_def open_lt_close)
    have "open_ev h r \<notin> set rest"
      using srt lt by auto
    then have z: "count (mset rest) (open_ev h r) = 0"
      by (simp add: count_eq_zero_iff)
    show ?thesis
      unfolding balanced_def
    proof
      fix r'
      from bal have b: "count (mset active) r' + count (mset (a # rest)) (open_ev h r')
          = count (mset (a # rest)) (close_ev h r')"
        by (simp add: balanced_def)
      show "count (mset (active_step a active)) r' + count (mset rest) (open_ev h r')
          = count (mset rest) (close_ev h r')"
      proof (cases "r' = r")
        case True
        have "count (mset (a # rest)) (open_ev h r) = count (mset rest) (open_ev h r)"
          using c by simp
        moreover have "count (mset (a # rest)) (close_ev h r) = Suc (count (mset rest) (close_ev h r))"
          using c by simp
        moreover have "count (mset (active_step a active)) r = count (mset active) r - 1"
          using c by (simp add: st)
        ultimately show ?thesis using b z unfolding True by linarith
      next
        case False
        with b c show ?thesis by (simp add: st)
      qed
    qed
  qed
  show "fst (snd a) = 0 \<longrightarrow> snd (snd a) \<in> set active"
  proof
    assume k: "fst (snd a) = 0"
    with a have c: "a = close_ev h r" by (auto simp: open_ev_def)
    have lt: "open_ev h r < a"
      using pos r c by (simp add: positive_def open_lt_close)
    have "open_ev h r \<notin> set rest"
      using srt lt by auto
    then have z: "count (mset rest) (open_ev h r) = 0"
      by (simp add: count_eq_zero_iff)
    from bal have "count (mset active) r + count (mset (a # rest)) (open_ev h r)
          = count (mset (a # rest)) (close_ev h r)"
      by (simp add: balanced_def)
    moreover have "count (mset (a # rest)) (open_ev h r) = count (mset rest) (open_ev h r)"
      using c by simp
    moreover have "count (mset (a # rest)) (close_ev h r) = Suc (count (mset rest) (close_ev h r))"
      using c by simp
    ultimately have "count (mset active) r > 0" using z by linarith
    then have "r \<in> set active" by (simp add: count_greater_zero_iff)
    with c show "snd (snd a) \<in> set active" by (simp add: close_ev_def)
  qed
qed

lemma genuine_Cons: "genuine h exons (a # rest) \<Longrightarrow> genuine h exons rest"
  by (simp add: genuine_def)

lemma removals_ok_balanced:
  "sorted evs \<Longrightarrow> genuine h exons evs \<Longrightarrow> positive h exons \<Longrightarrow> balanced h active evs
     \<Longrightarrow> removals_ok evs active"
proof (induction evs active rule: removals_ok.induct)
  case (1 a b es active)
  from balanced_step [OF "1.prems"] "1.IH" "1.prems" show ?case
    by (simp add: genuine_Cons)
qed simp_all

lemma fst_le_lex: "(x::event) \<le> y \<Longrightarrow> fst x \<le> fst y"
  by (auto simp: less_eq_prod_def)

lemma count_map_open_open: "count (image_mset (open_ev h) (mset xs)) (open_ev h r) = count (mset xs) r"
  by (induction xs) auto

lemma count_map_close_close: "count (image_mset (close_ev h) (mset xs)) (close_ev h r) = count (mset xs) r"
  by (induction xs) auto

lemma count_map_open_close: "count (image_mset (open_ev h) (mset xs)) (close_ev h r) = 0"
  by (induction xs) auto

lemma count_map_close_open: "count (image_mset (close_ev h) (mset xs)) (open_ev h r) = 0"
  by (induction xs) auto

lemma count_all_events:
  "count (all_events h exons) (open_ev h r) = count (mset exons) r"
  "count (all_events h exons) (close_ev h r) = count (mset exons) r"
  by (simp_all add: all_events_def count_map_open_open count_map_close_close
      count_map_open_close count_map_close_open)

lemma mset_ends: "mset (ends h exons) = all_events h exons"
  by (simp add: ends_def all_events_def open_ev_def [abs_def] close_ev_def [abs_def])

lemma sorted_ends: "sorted (ends h exons)"
  by (simp add: ends_def)

lemma genuine_all_events:
  "mset evs = all_events h exons \<Longrightarrow> genuine h exons evs"
proof -
  assume a: "mset evs = all_events h exons"
  have "set evs = set_mset (all_events h exons)" using a by (metis set_mset_mset)
  then show ?thesis by (auto simp: genuine_def all_events_def)
qed

lemma balanced_start: "mset evs = all_events h exons \<Longrightarrow> balanced h [] evs"
  by (simp add: balanced_def count_all_events)

lemma active_covering:
  assumes srt: "sorted (pre @ a # b # es)"
    and all: "mset (pre @ a # b # es) = all_events h exons"
    and pos: "positive h exons"
    and bal: "balanced h act (b # es)"
    and lt: "fst a < fst b"
  shows "set act = covering h exons (fst a) (fst b)"
proof -
  let ?suf = "b # es" and ?pre = "pre @ [a]"
  have pre_le: "fst x \<le> fst a" if "x \<in> set ?pre" for x
  proof -
    have "x \<le> a" using srt that by (auto simp: sorted_append)
    then show ?thesis by (rule fst_le_lex)
  qed
  have suf_ge: "fst b \<le> fst x" if "x \<in> set ?suf" for x
  proof -
    have "b \<le> x" using srt that by (auto simp: sorted_append)
    then show ?thesis by (rule fst_le_lex)
  qed
  have split: "count (all_events h exons) ev = count (mset ?pre) ev + count (mset ?suf) ev" for ev
  proof -
    have "mset (pre @ a # b # es) = mset ?pre + mset ?suf" by simp
    with all show ?thesis by (metis count_union)
  qed
  have suf_hi: "count (mset ?suf) ev = count (all_events h exons) ev" if "fst b \<le> fst ev" for ev
  proof -
    have "ev \<notin> set ?pre" using pre_le [of ev] lt that by auto
    then have "count (mset ?pre) ev = 0" by (auto simp: count_eq_zero_iff)
    with split [of ev] show ?thesis by linarith
  qed
  have suf_lo: "count (mset ?suf) ev = 0" if "fst ev < fst b" for ev
  proof -
    have "ev \<notin> set ?suf" using suf_ge [of ev] that by auto
    then show ?thesis by (auto simp: count_eq_zero_iff)
  qed
  have bal': "count (mset act) r + count (mset ?suf) (open_ev h r) = count (mset ?suf) (close_ev h r)" for r
    using bal by (simp add: balanced_def)
  have fo [simp]: "fst (open_ev h r) = start (h ! r)" for r by (simp add: open_ev_def)
  have fc [simp]: "fst (close_ev h r) = end_f (h ! r)" for r by (simp add: close_ev_def)
  show ?thesis
  proof (intro set_eqI iffI)
    fix r assume "r \<in> set act"
    then have c: "count (mset act) r > 0" by simp
    with bal' [of r] have gt: "count (mset ?suf) (open_ev h r) < count (mset ?suf) (close_ev h r)"
      by linarith
    have hi: "fst b \<le> end_f (h ! r)"
    proof (rule ccontr)
      assume "\<not> fst b \<le> end_f (h ! r)"
      then have "count (mset ?suf) (close_ev h r) = 0" using suf_lo [of "close_ev h r"] by simp
      with gt show False by linarith
    qed
    then have cc: "count (mset ?suf) (close_ev h r) = count (mset exons) r"
      using suf_hi [of "close_ev h r"] by (simp add: count_all_events)
    with gt have "count (mset exons) r > 0" by linarith
    then have mem: "r \<in> set exons" by simp
    have lo: "start (h ! r) < fst b"
    proof (rule ccontr)
      assume "\<not> start (h ! r) < fst b"
      then have "count (mset ?suf) (open_ev h r) = count (mset exons) r"
        using suf_hi [of "open_ev h r"] by (simp add: count_all_events)
      with gt cc show False by linarith
    qed
    have "count (mset ?suf) (open_ev h r) = 0" using suf_lo [of "open_ev h r"] lo by simp
    moreover have "count (all_events h exons) (open_ev h r) > 0"
      using mem by (simp add: count_all_events)
    ultimately have "count (mset ?pre) (open_ev h r) > 0" using split [of "open_ev h r"] by linarith
    then have "open_ev h r \<in> set ?pre" by (simp only: count_greater_zero_iff set_mset_mset)
    then have "start (h ! r) \<le> fst a" using pre_le [of "open_ev h r"] by simp
    with mem hi show "r \<in> covering h exons (fst a) (fst b)" by (simp add: covering_def)
  next
    fix r assume "r \<in> covering h exons (fst a) (fst b)"
    then have mem: "r \<in> set exons" and lo: "start (h ! r) \<le> fst a" and hi: "fst b \<le> end_f (h ! r)"
      by (simp_all add: covering_def)
    have "count (mset ?suf) (open_ev h r) = 0" using suf_lo [of "open_ev h r"] lo lt by simp
    moreover have "count (mset ?suf) (close_ev h r) = count (mset exons) r"
      using suf_hi [of "close_ev h r"] hi by (simp add: count_all_events)
    moreover have "count (mset exons) r > 0" using mem by simp
    ultimately have "count (mset act) r > 0" using bal' [of r] by linarith
    then show "r \<in> set act" by simp
  qed
qed

lemma genuine_suffix: "genuine h exons (pre @ suf) \<Longrightarrow> genuine h exons suf"
  by (simp add: genuine_def)

lemma spans_segments:
  assumes "sorted (pre @ suf)" and "mset (pre @ suf) = all_events h exons"
    and "positive h exons" and "balanced h active suf"
  shows "map (\<lambda>sp. (fst sp, fst (snd sp), set (snd (snd sp)))) (spans suf active)
           = segments h exons (map fst suf)"
  using assms
proof (induction suf active arbitrary: pre rule: spans.induct)
  case (1 a b es active)
  let ?act = "active_step a active"
  have srt: "sorted (a # b # es)" using "1.prems"(1) by (simp add: sorted_append)
  have gen: "genuine h exons (a # b # es)"
    using genuine_suffix [OF genuine_all_events [OF "1.prems"(2)]] .
  have bal: "balanced h ?act (b # es)"
    using balanced_step(1) [OF srt gen "1.prems"(3,4)] .
  have srt': "sorted ((pre @ [a]) @ b # es)" and all': "mset ((pre @ [a]) @ b # es) = all_events h exons"
    using "1.prems"(1,2) by simp_all
  have le: "fst a \<le> fst b" using srt by (simp add: fst_le_lex)
  show ?case
  proof (cases "fst a = fst b")
    case True
    then have c: "?act = [] \<or> fst a = fst b" by simp
    from "1.IH"(1) [OF c srt' all' "1.prems"(3) bal] True show ?thesis by simp
  next
    case False
    with le have lt: "fst a < fst b" by simp
    have cov: "set ?act = covering h exons (fst a) (fst b)"
      using active_covering [OF _ _ "1.prems"(3) bal lt, of pre] "1.prems"(1,2) by simp
    show ?thesis
    proof (cases "?act = []")
      case True
      then have c: "?act = [] \<or> fst a = fst b" by simp
      from True cov have "covering h exons (fst a) (fst b) = {}" by simp
      with "1.IH"(1) [OF c srt' all' "1.prems"(3) bal] True show ?thesis by simp
    next
      case F2: False
      then have c: "\<not> (?act = [] \<or> fst a = fst b)" using False by simp
      from F2 cov have "covering h exons (fst a) (fst b) \<noteq> {}" by auto
      with "1.IH"(2) [OF c srt' all' "1.prems"(3) bal] F2 False cov show ?thesis by simp
    qed
  qed
qed simp_all

lemma sorted_map_fst: "sorted (xs :: event list) \<Longrightarrow> sorted (map fst xs)"
  by (induction xs) (auto simp: fst_le_lex)

lemma segments_mem:
  "sorted ps \<Longrightarrow> sg \<in> set (segments h exons ps) \<Longrightarrow>
     fst sg < fst (snd sg) \<and> snd (snd sg) = covering h exons (fst sg) (fst (snd sg)) \<and>
     snd (snd sg) \<noteq> {} \<and> fst sg \<in> set ps \<and> fst (snd sg) \<in> set ps \<and>
     (\<forall>x\<in>set ps. x \<le> fst sg \<or> fst (snd sg) \<le> x)"
proof (induction h exons ps rule: segments.induct)
  case (1 h exons p q ps)
  show ?case
  proof (cases "sg \<in> set (segments h exons (q # ps))")
    case True
    from "1.prems"(1) have srt: "sorted (q # ps)" and pq: "p \<le> q" by simp_all
    have ih: "fst sg < fst (snd sg) \<and> snd (snd sg) = covering h exons (fst sg) (fst (snd sg)) \<and>
     snd (snd sg) \<noteq> {} \<and> fst sg \<in> set (q # ps) \<and> fst (snd sg) \<in> set (q # ps) \<and>
     (\<forall>x\<in>set (q # ps). x \<le> fst sg \<or> fst (snd sg) \<le> x)"
      using "1.IH"(1) [OF _ srt True] "1.IH"(2) [OF _ srt True] by blast
    then have "q \<le> fst sg" using srt by auto
    with pq have "p \<le> fst sg" by simp
    with ih show ?thesis by auto
  next
    case False
    with "1.prems"(2) have sg: "sg = (p, q, covering h exons p q)" and ne: "p \<noteq> q"
      and cov: "covering h exons p q \<noteq> {}"
      by (auto split: if_splits)
    from "1.prems"(1) ne have "p < q" by simp
    moreover have "\<forall>x\<in>set (p # q # ps). x \<le> p \<or> q \<le> x" using "1.prems"(1) by auto
    ultimately show ?thesis using sg cov by simp
  qed
qed simp_all

lemma segments_ordered:
  "sorted ps \<Longrightarrow> sorted_wrt (\<lambda>x y. fst (snd x) \<le> fst y) (segments h exons ps)"
proof (induction h exons ps rule: segments.induct)
  case (1 h exons p q ps)
  from "1.prems" have srt: "sorted (q # ps)" by simp
  have tl: "sorted_wrt (\<lambda>x y. fst (snd x) \<le> fst y) (segments h exons (q # ps))"
    using "1.IH"(1) [OF _ srt] "1.IH"(2) [OF _ srt] by blast
  have "q \<le> fst sg" if "sg \<in> set (segments h exons (q # ps))" for sg
    using segments_mem [OF srt that] srt by auto
  with tl show ?case by simp
qed simp_all

lemma segments_find:
  assumes "sorted ps" and "r \<in> set exons"
    and "start (h ! r) \<in> set ps \<or> start (h ! r) \<le> hd ps"
    and "end_f (h ! r) \<in> set ps"
    and "hd ps \<le> x" and "start (h ! r) \<le> x" and "x < end_f (h ! r)"
  shows "\<exists>sg\<in>set (segments h exons ps). fst sg \<le> x \<and> x < fst (snd sg)"
  using assms
proof (induction h exons ps rule: segments.induct)
  case (1 h exons p q ps)
  from "1.prems"(1) have srt: "sorted (q # ps)" and pq: "p \<le> q"
    and ge: "\<forall>y\<in>set (q # ps). q \<le> y" by auto
  show ?case
  proof (cases "x < q")
    case True
    have lo: "start (h ! r) \<le> p"
      using "1.prems"(3,6) True ge by auto
    have hi: "q \<le> end_f (h ! r)"
      using "1.prems"(4,5,7) ge by auto
    have "r \<in> covering h exons p q" using lo hi "1.prems"(2) by (simp add: covering_def)
    moreover have "p \<noteq> q" using "1.prems"(5) True by auto
    ultimately have "(p, q, covering h exons p q) \<in> set (segments h exons (p # q # ps))"
      by auto
    then show ?thesis using "1.prems"(5) True by force
  next
    case False
    then have qx: "q \<le> x" by simp
    have lo': "start (h ! r) \<in> set (q # ps) \<or> start (h ! r) \<le> hd (q # ps)"
      using "1.prems"(3) pq by auto
    have hi': "end_f (h ! r) \<in> set (q # ps)"
      using "1.prems"(4,5,7) by auto
    have "\<exists>sg\<in>set (segments h exons (q # ps)). fst sg \<le> x \<and> x < fst (snd sg)"
      using "1.IH"(1) [OF _ srt "1.prems"(2) lo' hi' _ "1.prems"(6,7)]
        "1.IH"(2) [OF _ srt "1.prems"(2) lo' hi' _ "1.prems"(6,7)] qx by auto
    then show ?thesis by auto
  qed
next
  case "2_1"
  then show ?case by simp
next
  case "2_2"
  then show ?case by auto
qed

section \<open>Allocating the pieces\<close>

lemma wf_iter_strs: "wf_runtime rt \<Longrightarrow> finite S \<Longrightarrow> set (iter_strs rt S) = S"
  by (simp add: wf_runtime_def)

lemma wf_iter_objs:
  "wf_runtime rt \<Longrightarrow> finite S \<Longrightarrow> set (iter_objs rt S) = S \<and> distinct (iter_objs rt S)"
  by (simp add: wf_runtime_def)

lemma Exon_and_Inr:
  "Exon_and rt a b = Inr E \<Longrightarrow>
     chrom a = chrom b \<and> chrom E = chrom a \<and>
     transcripts E = iter_strs rt (set (transcripts a) \<union> set (transcripts b)) \<and>
     multiplicity E = multiplicity a + multiplicity b \<and>
     strand E = (strand a + strand b) div 2 \<and> length_f E = 0"
  by (auto simp: Exon_and_def GenomicObject_and_def Exon_def split: if_splits)

lemma reduce_from_transcripts:
  "wf_runtime rt \<Longrightarrow> reduce_from rt x ys = Inr z \<Longrightarrow>
     set (transcripts z) = set (transcripts x) \<union> (\<Union>y\<in>set ys. set (transcripts y))"
proof (induction ys arbitrary: x)
  case Nil
  then show ?case by simp
next
  case (Cons y ys)
  from Cons.prems(2) obtain w where w: "Exon_and rt x y = Inr w" and r: "reduce_from rt w ys = Inr z"
    by (auto split: sum.splits)
  have "set (transcripts w) = set (transcripts x) \<union> set (transcripts y)"
    using Exon_and_Inr [OF w] wf_iter_strs [OF Cons.prems(1)] by simp
  with Cons.IH [OF Cons.prems(1) r] show ?case by auto
qed

lemma reduce_from_success:
  "\<forall>y\<in>set ys. chrom y = chrom x \<Longrightarrow> \<exists>z. reduce_from rt x ys = Inr z"
proof (induction ys arbitrary: x)
  case Nil
  then show ?case by simp
next
  case (Cons y ys)
  from Cons.prems have "chrom x = chrom y" by simp
  then obtain w where w: "Exon_and rt x y = Inr w"
    by (auto simp: Exon_and_def GenomicObject_and_def)
  with Exon_and_Inr [OF w] Cons.prems have "\<forall>y\<in>set ys. chrom y = chrom w" by simp
  from Cons.IH [OF this] w show ?case by simp
qed

lemma intersect_exons_list_new:
  "intersect_exons_list rt h feats multiple = Inr (h', p) \<Longrightarrow> \<exists>E. h' = h @ [E] \<and> p = length h"
  by (auto simp: intersect_exons_list_def Let_def split: if_splits sum.splits)

lemma intersect_exons_list_transcripts:
  assumes wf: "wf_runtime rt" and ne: "feats \<noteq> []"
    and res: "intersect_exons_list rt h feats False = Inr (h', p)"
  shows "\<exists>E. h' = h @ [E] \<and> p = length h \<and>
           set (transcripts E) = (\<Union>r\<in>set feats. set (transcripts (h ! r)))"
proof -
  let ?fs = "iter_objs rt (set feats)"
  have fs: "set ?fs = set feats" using wf_iter_objs [OF wf, of "set feats"] by simp
  show ?thesis
  proof (cases "length ?fs = 1")
    case True
    then obtain r where r: "?fs = [r]" by (cases ?fs) auto
    with fs have "set feats = {r}" by simp
    with res True r show ?thesis by (auto simp: intersect_exons_list_def)
  next
    case False
    from fs ne obtain x xs where xs: "?fs = x # xs" by (cases ?fs) auto
    from res False xs obtain E where E: "reduce_from rt (h ! x) (map (\<lambda>r. h ! r) xs) = Inr E"
      and h': "h' = h @ [E]" and p: "p = length h"
      by (auto simp: intersect_exons_list_def split: sum.splits)
    have "set (transcripts E) = (\<Union>r\<in>set (x # xs). set (transcripts (h ! r)))"
      using reduce_from_transcripts [OF wf E] by simp
    with fs xs h' p show ?thesis by simp
  qed
qed

lemma intersect_exons_list_success:
  assumes wf: "wf_runtime rt" and ne: "feats \<noteq> []"
    and chr: "\<forall>r\<in>set feats. chrom (h ! r) = c"
  shows "\<exists>E. intersect_exons_list rt h feats False = Inr (h @ [E], length h)"
proof -
  let ?fs = "iter_objs rt (set feats)"
  have fs: "set ?fs = set feats" using wf_iter_objs [OF wf, of "set feats"] by simp
  show ?thesis
  proof (cases "length ?fs = 1")
    case True
    then show ?thesis by (simp add: intersect_exons_list_def)
  next
    case False
    from fs ne obtain x xs where xs: "?fs = x # xs" by (cases ?fs) auto
    have "\<forall>y\<in>set (map (\<lambda>r. h ! r) xs). chrom y = chrom (h ! x)"
      using chr fs xs by (metis (no_types, lifting) imageE list.set_intros(1) list.set_intros(2) set_map)
    from reduce_from_success [OF this] obtain E where "reduce_from rt (h ! x) (map (\<lambda>r. h ! r) xs) = Inr E"
      by blast
    with False xs show ?thesis by (simp add: intersect_exons_list_def)
  qed
qed


lemma build_values:
  assumes wf: "wf_runtime rt"
  shows "\<forall>sp\<in>set sps. snd (snd sp) \<noteq> [] \<and> (\<forall>r\<in>set (snd (snd sp)). r < length h) \<Longrightarrow>
     build rt h sps c = Inr (h', out) \<Longrightarrow>
     length h \<le> length h' \<and> (\<forall>i<length h. h' ! i = h ! i) \<and>
     (\<exists>new. out = c @ new \<and>
        map (summary h') new =
          map (\<lambda>sp. (fst sp, fst (snd sp), \<Union>r\<in>set (snd (snd sp)). set (transcripts (h ! r)))) sps)"
proof (induction sps arbitrary: h c)
  case Nil
  then show ?case by simp
next
  case (Cons sp rest)
  let ?act = "snd (snd sp)"
  from Cons.prems(2) obtain h1 p where i: "intersect_exons_list rt h ?act False = Inr (h1, p)"
    and b: "build rt (h1[p := (h1 ! p)\<lparr>start := fst sp, end_f := fst (snd sp)\<rparr>]) rest (c @ [p])
              = Inr (h', out)"
    by (auto split: sum.splits)
  from Cons.prems(1) have ne: "?act \<noteq> []" by simp
  from intersect_exons_list_transcripts [OF wf ne i] obtain E where h1: "h1 = h @ [E]"
    and p: "p = length h"
    and tE: "set (transcripts E) = (\<Union>r\<in>set ?act. set (transcripts (h ! r)))"
    by blast
  let ?E' = "E\<lparr>start := fst sp, end_f := fst (snd sp)\<rparr>"
  let ?h2 = "h @ [?E']"
  have h2: "h1[p := (h1 ! p)\<lparr>start := fst sp, end_f := fst (snd sp)\<rparr>] = ?h2"
    by (simp add: h1 p)
  have valid: "\<forall>sp\<in>set rest. snd (snd sp) \<noteq> [] \<and> (\<forall>r\<in>set (snd (snd sp)). r < length ?h2)"
  proof
    fix s assume "s \<in> set rest"
    with Cons.prems(1) have "snd (snd s) \<noteq> [] \<and> (\<forall>r\<in>set (snd (snd s)). r < length h)" by simp
    then show "snd (snd s) \<noteq> [] \<and> (\<forall>r\<in>set (snd (snd s)). r < length ?h2)" by auto
  qed
  from Cons.IH [OF valid b [unfolded h2]] obtain new where
    len: "length ?h2 \<le> length h'" and pre: "\<forall>i<length ?h2. h' ! i = ?h2 ! i"
    and out: "out = (c @ [p]) @ new"
    and vals: "map (summary h') new =
          map (\<lambda>sp. (fst sp, fst (snd sp), \<Union>r\<in>set (snd (snd sp)). set (transcripts (?h2 ! r)))) rest"
    by blast
  have same: "(\<Union>r\<in>set (snd (snd s)). set (transcripts (?h2 ! r)))
      = (\<Union>r\<in>set (snd (snd s)). set (transcripts (h ! r)))" if "s \<in> set rest" for s
    using Cons.prems(1) that by (auto simp: nth_append)
  have vals': "map (summary h') new =
          map (\<lambda>sp. (fst sp, fst (snd sp), \<Union>r\<in>set (snd (snd sp)). set (transcripts (h ! r)))) rest"
    unfolding vals using same by simp
  have hp: "h' ! p = ?E'" using pre p by simp
  have "summary h' p = (fst sp, fst (snd sp), \<Union>r\<in>set ?act. set (transcripts (h ! r)))"
    by (simp add: summary_def hp tE)
  with vals' have "map (summary h') (p # new) =
     map (\<lambda>sp. (fst sp, fst (snd sp), \<Union>r\<in>set (snd (snd sp)). set (transcripts (h ! r)))) (sp # rest)"
    by simp
  moreover have "out = c @ (p # new)" using out by simp
  moreover have "length h \<le> length h'" using len by simp
  moreover have "\<forall>i<length h. h' ! i = h ! i" using pre by (simp add: nth_append)
  ultimately show ?case by blast
qed

lemma build_success:
  assumes wf: "wf_runtime rt"
  shows "\<forall>sp\<in>set sps. snd (snd sp) \<noteq> [] \<and> (\<forall>r\<in>set (snd (snd sp)). r < length h \<and> chrom (h ! r) = ch)
     \<Longrightarrow> \<exists>h' out. build rt h sps c = Inr (h', out)"
proof (induction sps arbitrary: h c)
  case Nil
  then show ?case by simp
next
  case (Cons sp rest)
  let ?act = "snd (snd sp)"
  from Cons.prems have ne: "?act \<noteq> []" and chr: "\<forall>r\<in>set ?act. chrom (h ! r) = ch" by simp_all
  from intersect_exons_list_success [OF wf ne chr] obtain E where
    i: "intersect_exons_list rt h ?act False = Inr (h @ [E], length h)" by blast
  let ?h2 = "h @ [E\<lparr>start := fst sp, end_f := fst (snd sp)\<rparr>]"
  have valid: "\<forall>sp\<in>set rest. snd (snd sp) \<noteq> [] \<and>
      (\<forall>r\<in>set (snd (snd sp)). r < length ?h2 \<and> chrom (?h2 ! r) = ch)"
  proof
    fix s assume "s \<in> set rest"
    with Cons.prems have "snd (snd s) \<noteq> [] \<and>
      (\<forall>r\<in>set (snd (snd s)). r < length h \<and> chrom (h ! r) = ch)" by simp
    then show "snd (snd s) \<noteq> [] \<and>
      (\<forall>r\<in>set (snd (snd s)). r < length ?h2 \<and> chrom (?h2 ! r) = ch)"
      by (auto simp: nth_append)
  qed
  from Cons.IH [OF valid] obtain h' out where
    "build rt ?h2 rest (c @ [length h]) = Inr (h', out)" by blast
  with i show ?case by simp
qed

section \<open>What a run of the loop implies\<close>

lemma cobble_loop_frame:
  "cobble_loop rt evs h active c = Inr (h', out) \<Longrightarrow>
     length h \<le> length h' \<and> (\<forall>i<length h. h' ! i = h ! i) \<and>
     (\<forall>p\<in>set out. p \<in> set c \<or> length h \<le> p)"
proof (induction rt evs h active c rule: cobble_loop.induct)
  case (1 rt a b es h active_exons cobbled)
  let ?upd = "(if fst (snd a) = 1 then Inr (active_exons @ [snd (snd a)])
            else if fst (snd a) = 0 then list_remove active_exons (snd (snd a))
            else Inr active_exons)"
  from "1.prems" obtain act where act: "?upd = Inr act"
    by (cases ?upd) (simp_all del: One_nat_def)
  have unf: "cobble_loop rt (a # b # es) h active_exons cobbled =
      (if length act = 0 then cobble_loop rt (b # es) h act cobbled
       else if fst a = fst b then cobble_loop rt (b # es) h act cobbled
       else (case intersect_exons_list rt h act False of
               Inl err \<Rightarrow> Inl err
             | Inr (h', e) \<Rightarrow>
                 cobble_loop rt (b # es)
                   (h'[e := (h' ! e)\<lparr>start := fst a, end_f := fst b\<rparr>])
                   act (cobbled @ [e])))"
    by (simp only: cobble_loop.simps act sum.case)
  show ?case
  proof (cases "length act = 0 \<or> fst a = fst b")
    case True
    have "cobble_loop rt (b # es) h act cobbled = Inr (h', out)"
      using "1.prems" True unfolding unf by (auto split: if_splits)
    with "1.IH"(1) [OF act] "1.IH"(2) [OF act] True show ?thesis by blast
  next
    case False
    with "1.prems" obtain h1 p where i: "intersect_exons_list rt h act False = Inr (h1, p)"
      and l: "cobble_loop rt (b # es) (h1[p := (h1 ! p)\<lparr>start := fst a, end_f := fst b\<rparr>]) act
                (cobbled @ [p]) = Inr (h', out)"
      unfolding unf by (auto split: sum.splits)
    from intersect_exons_list_new [OF i] obtain E where h1: "h1 = h @ [E]" and p: "p = length h"
      by blast
    from False have f1: "length act \<noteq> 0" and f2: "fst a \<noteq> fst b" by simp_all
    have ih: "length (h1[p := (h1 ! p)\<lparr>start := fst a, end_f := fst b\<rparr>]) \<le> length h' \<and>
       (\<forall>i<length (h1[p := (h1 ! p)\<lparr>start := fst a, end_f := fst b\<rparr>]).
           h' ! i = h1[p := (h1 ! p)\<lparr>start := fst a, end_f := fst b\<rparr>] ! i) \<and>
       (\<forall>q\<in>set out. q \<in> set (cobbled @ [p]) \<or>
           length (h1[p := (h1 ! p)\<lparr>start := fst a, end_f := fst b\<rparr>]) \<le> q)"
      using "1.IH"(3) [OF act f1 f2 i refl l] .
    then show ?thesis by (auto simp: h1 p nth_append)
  qed
qed simp_all

lemma cobble_loop_removals_ok:
  "cobble_loop rt evs h active c = Inr res \<Longrightarrow> removals_ok evs active"
proof (induction rt evs h active c rule: cobble_loop.induct)
  case (1 rt a b es h active_exons cobbled)
  let ?upd = "(if fst (snd a) = 1 then Inr (active_exons @ [snd (snd a)])
            else if fst (snd a) = 0 then list_remove active_exons (snd (snd a))
            else Inr active_exons)"
  from "1.prems" obtain act where act: "?upd = Inr act"
    by (cases ?upd) (simp_all del: One_nat_def)
  then have mem: "fst (snd a) = 0 \<longrightarrow> snd (snd a) \<in> set active_exons"
    and st: "act = active_step a active_exons"
    by (auto simp: list_remove_def active_step_def split: if_splits)
  have unf: "cobble_loop rt (a # b # es) h active_exons cobbled =
      (if length act = 0 then cobble_loop rt (b # es) h act cobbled
       else if fst a = fst b then cobble_loop rt (b # es) h act cobbled
       else (case intersect_exons_list rt h act False of
               Inl err \<Rightarrow> Inl err
             | Inr (h', e) \<Rightarrow>
                 cobble_loop rt (b # es)
                   (h'[e := (h' ! e)\<lparr>start := fst a, end_f := fst b\<rparr>])
                   act (cobbled @ [e])))"
    by (simp only: cobble_loop.simps act sum.case)
  have "removals_ok (b # es) act"
  proof (cases "length act = 0 \<or> fst a = fst b")
    case True
    have "cobble_loop rt (b # es) h act cobbled = Inr res"
      using "1.prems" True unfolding unf by (auto split: if_splits)
    with "1.IH"(1) [OF act] "1.IH"(2) [OF act] True show ?thesis by blast
  next
    case False
    with "1.prems" obtain h1 p where i: "intersect_exons_list rt h act False = Inr (h1, p)"
      and l: "cobble_loop rt (b # es) (h1[p := (h1 ! p)\<lparr>start := fst a, end_f := fst b\<rparr>]) act
                (cobbled @ [p]) = Inr res"
      unfolding unf by (auto split: sum.splits)
    from False have f1: "length act \<noteq> 0" and f2: "fst a \<noteq> fst b" by simp_all
    show ?thesis using "1.IH"(3) [OF act f1 f2 i refl l] .
  qed
  with mem st show ?case by simp
qed simp_all

lemma removals_ok_opened:
  "removals_ok (xs @ (p, 0, r) # y # ys) active \<Longrightarrow> r \<in> set active \<or> (\<exists>p'. (p', 1, r) \<in> set xs)"
proof (induction xs arbitrary: active)
  case Nil
  then show ?case by simp
next
  case (Cons x xs)
  obtain z zs where z: "xs @ (p, 0, r) # y # ys = z # zs" by (cases xs) auto
  from Cons.prems have "removals_ok (xs @ (p, 0, r) # y # ys) (active_step x active)"
    by (simp add: z)
  from Cons.IH [OF this] show ?case
  proof
    assume "r \<in> set (active_step x active)"
    then have "r \<in> set active \<or> (fst (snd x) = 1 \<and> snd (snd x) = r)"
      by (auto simp: active_step_def split: if_splits dest: set_remove1_subset [THEN subsetD])
    then show ?thesis by (cases x) auto
  next
    assume "\<exists>p'. (p', 1, r) \<in> set xs"
    then show ?thesis by auto
  qed
qed

lemma removals_ok_positive:
  assumes ok: "removals_ok (ends h exons) []"
  shows "positive h exons"
  unfolding positive_def
proof (intro ballI, rule ccontr)
  fix r assume r: "r \<in> set exons" and neg: "\<not> start (h ! r) < end_f (h ! r)"
  let ?evs = "ends h exons"
  have lt: "close_ev h r < open_ev h r"
    using neg by (auto simp: close_ev_def open_ev_def less_prod_def)
  have set_evs: "set ?evs = open_ev h ` set exons \<union> close_ev h ` set exons"
  proof -
    have "set ?evs = set_mset (all_events h exons)" by (metis mset_ends set_mset_mset)
    then show ?thesis by (simp add: all_events_def)
  qed
  then have "close_ev h r \<in> set ?evs" using r by simp
  then obtain xs zs where split: "?evs = xs @ close_ev h r # zs" and first: "close_ev h r \<notin> set xs"
    by (auto dest: split_list_first)
  have srt: "sorted (xs @ close_ev h r # zs)" using sorted_ends [of h exons] split by simp
  have "open_ev h r \<in> set ?evs" using set_evs r by simp
  moreover have "open_ev h r \<notin> set xs"
  proof
    assume "open_ev h r \<in> set xs"
    with srt have "open_ev h r \<le> close_ev h r" by (auto simp: sorted_append)
    with lt show False by simp
  qed
  ultimately have "open_ev h r \<in> set zs" using split lt by auto
  then obtain y ys where zs: "zs = y # ys" by (cases zs) auto
  have "removals_ok (xs @ (end_f (h ! r), 0, r) # y # ys) []"
    using ok split zs by (simp add: close_ev_def)
  from removals_ok_opened [OF this] obtain p' where p': "(p', 1, r) \<in> set xs" by auto
  then have "(p', 1, r) \<in> set ?evs" using split by simp
  with set_evs have "(p', 1, r) = open_ev h r" by (auto simp: open_ev_def close_ev_def)
  with p' \<open>open_ev h r \<notin> set xs\<close> show False by simp
qed

section \<open>The pieces of cobble\<close>

lemma set_ends: "set (ends h exons) = open_ev h ` set exons \<union> close_ev h ` set exons"
proof -
  have "set (ends h exons) = set_mset (all_events h exons)" by (metis mset_ends set_mset_mset)
  then show ?thesis by (simp add: all_events_def)
qed

lemma set_bounds:
  "set (map fst (ends h exons)) = (\<lambda>r. start (h ! r)) ` set exons \<union> (\<lambda>r. end_f (h ! r)) ` set exons"
  by (simp add: set_ends image_Un image_image open_ev_def close_ev_def)

lemma sorted_bounds: "sorted (map fst (ends h exons))"
  by (rule sorted_map_fst [OF sorted_ends])

lemma spans_ends:
  assumes pos: "positive h exons"
  shows "map (\<lambda>sp. (fst sp, fst (snd sp), set (snd (snd sp)))) (spans (ends h exons) [])
           = segments h exons (map fst (ends h exons))"
  using spans_segments [of "[]" "ends h exons" h exons "[]"] pos
  by (simp add: sorted_ends mset_ends balanced_start)

lemma spans_ends_mem:
  assumes pos: "positive h exons" and sp: "sp \<in> set (spans (ends h exons) [])"
  shows "snd (snd sp) \<noteq> [] \<and> set (snd (snd sp)) \<subseteq> set exons"
proof -
  let ?g = "\<lambda>sp. (fst sp, fst (snd sp), set (snd (snd sp)))"
  have "?g sp \<in> set (map ?g (spans (ends h exons) []))" using sp by (simp only: set_map) (rule imageI)
  then have "?g sp \<in> set (segments h exons (map fst (ends h exons)))"
    by (simp only: spans_ends [OF pos])
  from segments_mem [OF sorted_bounds this]
  have "set (snd (snd sp)) = covering h exons (fst sp) (fst (snd sp))" and "snd (snd sp) \<noteq> []"
    by auto
  then show ?thesis by (auto simp: covering_def)
qed

lemma cobble_build:
  assumes pos: "positive h exons"
  shows "cobble rt h exons multiple = build rt h (spans (ends h exons) []) []"
proof -
  have "removals_ok (ends h exons) []"
    by (rule removals_ok_balanced [OF sorted_ends genuine_all_events [OF mset_ends] pos
          balanced_start [OF mset_ends]])
  then show ?thesis by (simp add: cobble_def cobble_loop_build)
qed

lemma cobble_segments:
  assumes wf: "wf_runtime rt" and valid: "\<forall>r\<in>set exons. r < length h"
    and pos: "positive h exons" and res: "cobble rt h exons multiple = Inr (h', pieces)"
  shows "map (summary h') pieces = map (seg_summary h) (segments h exons (map fst (ends h exons)))"
proof -
  let ?sps = "spans (ends h exons) []"
  have ok: "\<forall>sp\<in>set ?sps. snd (snd sp) \<noteq> [] \<and> (\<forall>r\<in>set (snd (snd sp)). r < length h)"
    using spans_ends_mem [OF pos] valid by blast
  from res have b: "build rt h ?sps [] = Inr (h', pieces)" by (simp add: cobble_build [OF pos])
  from build_values [OF wf ok b]
  have "map (summary h') pieces =
      map (\<lambda>sp. (fst sp, fst (snd sp), \<Union>r\<in>set (snd (snd sp)). set (transcripts (h ! r)))) ?sps"
    by auto
  also have "\<dots> = map (seg_summary h) (map (\<lambda>sp. (fst sp, fst (snd sp), set (snd (snd sp)))) ?sps)"
    by (simp add: seg_summary_def)
  finally show ?thesis by (simp only: spans_ends [OF pos])
qed

lemma cobble_success:
  assumes wf: "wf_runtime rt" and valid: "\<forall>r\<in>set exons. r < length h"
    and pos: "positive h exons"
    and chr: "\<forall>r\<in>set exons. \<forall>r'\<in>set exons. chrom (h ! r) = chrom (h ! r')"
  shows "\<exists>h' pieces. cobble rt h exons multiple = Inr (h', pieces)"
proof (cases exons)
  case Nil
  then show ?thesis by (simp add: cobble_def ends_def)
next
  case (Cons e es)
  let ?sps = "spans (ends h exons) []"
  have "\<forall>sp\<in>set ?sps. snd (snd sp) \<noteq> [] \<and>
      (\<forall>r\<in>set (snd (snd sp)). r < length h \<and> chrom (h ! r) = chrom (h ! e))"
    using spans_ends_mem [OF pos] valid chr Cons
    by (metis list.set_intros(1) subsetD)
  from build_success [OF wf this] show ?thesis by (simp add: cobble_build [OF pos])
qed

lemma sorted_hd_le: "sorted ps \<Longrightarrow> y \<in> set ps \<Longrightarrow> hd ps \<le> (y::int)"
  by (cases ps) auto

lemma wf_sorted_runtime: "wf_runtime sorted_runtime"
  by (simp add: wf_runtime_def sorted_runtime_def)

lemma cobble_E1_E2:
  "cobble sorted_runtime [exon_E1, exon_E2] [0, 1] False = Inr ([exon_E1, exon_E2,
      exon_E1\<lparr>start := 0, end_f := 50\<rparr>,
      (Exon [''T1'', ''T2''] ''E1E2'' ''G1'' ''Gapdh'' ''chr6'' 50 100 ''E1|E2'' 0 1 2)\<lparr>length_f := 0\<rparr>,
      exon_E2\<lparr>start := 100, end_f := 150\<rparr>], [2, 3, 4])"
  by (simp add: cobble_def ends_def intersect_exons_list_def Exon_and_def GenomicObject_and_def
      list_remove_def sorted_runtime_def exon_E1_def exon_E2_def Exon_def)

lemma summary_mem:
  assumes eq: "map (summary h') pieces = map (seg_summary h) segs" and p: "p \<in> set pieces"
  shows "\<exists>sg\<in>set segs. summary h' p = seg_summary h sg"
proof -
  have "summary h' p \<in> set (map (summary h') pieces)" using p by simp
  then have "summary h' p \<in> set (map (seg_summary h) segs)" by (simp only: eq)
  then show ?thesis by auto
qed

lemma seg_mem:
  assumes eq: "map (summary h') pieces = map (seg_summary h) segs" and sg: "sg \<in> set segs"
  shows "\<exists>p\<in>set pieces. summary h' p = seg_summary h sg"
proof -
  have "seg_summary h sg \<in> set (map (seg_summary h) segs)" using sg by simp
  then have "seg_summary h sg \<in> set (map (summary h') pieces)" by (simp only: eq)
  then show ?thesis by auto
qed

text \<open>
  Claim C1. For features of positive length on one chromosome, \<open>cobble\<close> returns; its
  pieces are non-empty half-open intervals, each ending before the next one starts (so
  they are pairwise disjoint and ordered by start), and the positions they cover are
  exactly the positions covered by at least one input feature.
\<close>

theorem cobble_partition:
  assumes wf: "wf_runtime rt"
    and valid: "\<forall>r\<in>set exons. r < length h"
    and pos: "\<forall>r\<in>set exons. start (h ! r) < end_f (h ! r)"
    and chr: "\<forall>r\<in>set exons. \<forall>r'\<in>set exons. chrom (h ! r) = chrom (h ! r')"
  shows "\<exists>h' pieces. cobble rt h exons multiple = Inr (h', pieces) \<and>
     (\<forall>p\<in>set pieces. start (h' ! p) < end_f (h' ! p)) \<and>
     (\<forall>i j. i < j \<and> j < length pieces \<longrightarrow>
         end_f (h' ! (pieces ! i)) \<le> start (h' ! (pieces ! j))) \<and>
     (\<Union>p\<in>set pieces. {start (h' ! p)..<end_f (h' ! p)})
       = (\<Union>r\<in>set exons. {start (h ! r)..<end_f (h ! r)})"
proof -
  have pos': "positive h exons" using pos by (simp add: positive_def)
  from cobble_success [OF wf valid pos' chr] obtain h' pieces where
    res: "cobble rt h exons multiple = Inr (h', pieces)" by blast
  let ?bs = "map fst (ends h exons)"
  let ?segs = "segments h exons ?bs"
  have eq: "map (summary h') pieces = map (seg_summary h) ?segs"
    by (rule cobble_segments [OF wf valid pos' res])
  have len: "length pieces = length ?segs"
    using eq by (metis length_map)
  have nth: "summary h' (pieces ! i) = seg_summary h (?segs ! i)" if "i < length pieces" for i
    using eq that len by (metis nth_map)
  have a: "\<forall>p\<in>set pieces. start (h' ! p) < end_f (h' ! p)"
  proof
    fix p assume "p \<in> set pieces"
    from summary_mem [OF eq this] obtain sg where sg: "sg \<in> set ?segs"
      and s: "summary h' p = seg_summary h sg" by blast
    from segments_mem [OF sorted_bounds sg] s show "start (h' ! p) < end_f (h' ! p)"
      by (simp add: summary_def seg_summary_def)
  qed
  have b: "\<forall>i j. i < j \<and> j < length pieces \<longrightarrow>
         end_f (h' ! (pieces ! i)) \<le> start (h' ! (pieces ! j))"
  proof (intro allI impI)
    fix i j assume ij: "i < j \<and> j < length pieces"
    then have "fst (snd (?segs ! i)) \<le> fst (?segs ! j)"
      using segments_ordered [OF sorted_bounds, of h exons h exons] len
      by (simp add: sorted_wrt_iff_nth_less)
    moreover have "summary h' (pieces ! i) = seg_summary h (?segs ! i)"
      and "summary h' (pieces ! j) = seg_summary h (?segs ! j)"
      using nth ij by simp_all
    ultimately show "end_f (h' ! (pieces ! i)) \<le> start (h' ! (pieces ! j))"
      by (simp add: summary_def seg_summary_def)
  qed
  have c: "(\<Union>p\<in>set pieces. {start (h' ! p)..<end_f (h' ! p)})
       = (\<Union>r\<in>set exons. {start (h ! r)..<end_f (h ! r)})"
  proof (intro set_eqI iffI)
    fix x assume "x \<in> (\<Union>p\<in>set pieces. {start (h' ! p)..<end_f (h' ! p)})"
    then obtain p where p: "p \<in> set pieces" and x: "start (h' ! p) \<le> x" "x < end_f (h' ! p)"
      by auto
    from summary_mem [OF eq p] obtain sg where sg: "sg \<in> set ?segs"
      and s: "summary h' p = seg_summary h sg" by blast
    from segments_mem [OF sorted_bounds sg] obtain r where
      "r \<in> covering h exons (fst sg) (fst (snd sg))" by auto
    then have "r \<in> set exons" "start (h ! r) \<le> fst sg" "fst (snd sg) \<le> end_f (h ! r)"
      by (simp_all add: covering_def)
    moreover have "fst sg = start (h' ! p)" "fst (snd sg) = end_f (h' ! p)"
      using s by (simp_all add: summary_def seg_summary_def)
    ultimately show "x \<in> (\<Union>r\<in>set exons. {start (h ! r)..<end_f (h ! r)})"
      using x by force
  next
    fix x assume "x \<in> (\<Union>r\<in>set exons. {start (h ! r)..<end_f (h ! r)})"
    then obtain r where r: "r \<in> set exons" and x: "start (h ! r) \<le> x" "x < end_f (h ! r)"
      by auto
    have lo: "start (h ! r) \<in> set ?bs" and hi: "end_f (h ! r) \<in> set ?bs"
      using r by (simp_all only: set_bounds) auto
    have "hd ?bs \<le> start (h ! r)" by (rule sorted_hd_le [OF sorted_bounds lo])
    with x have hd: "hd ?bs \<le> x" by simp
    from segments_find [OF sorted_bounds r disjI1 [OF lo] hi hd x]
    obtain sg where sg: "sg \<in> set ?segs" and sx: "fst sg \<le> x" "x < fst (snd sg)" by blast
    from seg_mem [OF eq sg] obtain p where p: "p \<in> set pieces"
      and s: "summary h' p = seg_summary h sg" by blast
    have "fst sg = start (h' ! p)" "fst (snd sg) = end_f (h' ! p)"
      using s by (simp_all add: summary_def seg_summary_def)
    with sx p show "x \<in> (\<Union>p\<in>set pieces. {start (h' ! p)..<end_f (h' ! p)})" by force
  qed
  from res a b c show ?thesis by blast
qed

theorem cobble_partition_witness:
  "\<exists>h' pieces. cobble sorted_runtime [exon_E1, exon_E2] [0, 1] False = Inr (h', pieces) \<and>
     (\<forall>p\<in>set pieces. start (h' ! p) < end_f (h' ! p)) \<and>
     (\<forall>i j. i < j \<and> j < length pieces \<longrightarrow>
         end_f (h' ! (pieces ! i)) \<le> start (h' ! (pieces ! j))) \<and>
     (\<Union>p\<in>set pieces. {start (h' ! p)..<end_f (h' ! p)})
       = (\<Union>r\<in>set [0, 1]. {start ([exon_E1, exon_E2] ! r)..<end_f ([exon_E1, exon_E2] ! r)})"
  by (rule cobble_partition [OF wf_sorted_runtime])
    (simp_all add: exon_E1_def exon_E2_def Exon_def)

text \<open>
  Claim C2. The transcripts of every piece that \<open>cobble\<close> returns are, as a set, the
  union of the transcripts of every input feature whose interval contains a position of
  the piece.
\<close>

theorem cobble_transcripts:
  assumes wf: "wf_runtime rt"
    and valid: "\<forall>r\<in>set exons. r < length h"
    and res: "cobble rt h exons multiple = Inr (h', pieces)"
    and p: "p \<in> set pieces"
  shows "set (transcripts (h' ! p)) =
     (\<Union>r\<in>{r \<in> set exons. \<exists>x. start (h' ! p) \<le> x \<and> x < end_f (h' ! p) \<and>
                              start (h ! r) \<le> x \<and> x < end_f (h ! r)}.
        set (transcripts (h ! r)))"
proof -
  have "removals_ok (ends h exons) []"
    using cobble_loop_removals_ok [of rt "ends h exons" h "[]" "[]"] res by (simp add: cobble_def)
  then have pos: "positive h exons" by (rule removals_ok_positive)
  let ?bs = "map fst (ends h exons)"
  let ?segs = "segments h exons ?bs"
  have eq: "map (summary h') pieces = map (seg_summary h) ?segs"
    by (rule cobble_segments [OF wf valid pos res])
  from summary_mem [OF eq p] obtain sg where sg: "sg \<in> set ?segs"
    and s: "summary h' p = seg_summary h sg" by blast
  let ?p = "fst sg" and ?q = "fst (snd sg)"
  from s have sp: "start (h' ! p) = ?p" and ep: "end_f (h' ! p) = ?q"
    and tp: "set (transcripts (h' ! p)) = (\<Union>r\<in>snd (snd sg). set (transcripts (h ! r)))"
    by (simp_all add: summary_def seg_summary_def)
  from segments_mem [OF sorted_bounds sg] have lt: "?p < ?q"
    and cov: "snd (snd sg) = covering h exons ?p ?q"
    and gap: "\<forall>y\<in>set ?bs. y \<le> ?p \<or> ?q \<le> y" by simp_all
  have "covering h exons ?p ?q =
      {r \<in> set exons. \<exists>x. ?p \<le> x \<and> x < ?q \<and> start (h ! r) \<le> x \<and> x < end_f (h ! r)}"
  proof (intro set_eqI iffI)
    fix r assume "r \<in> covering h exons ?p ?q"
    then have "r \<in> set exons" "start (h ! r) \<le> ?p" "?q \<le> end_f (h ! r)"
      by (simp_all add: covering_def)
    with lt have "r \<in> set exons \<and> (?p \<le> ?p \<and> ?p < ?q \<and> start (h ! r) \<le> ?p \<and> ?p < end_f (h ! r))"
      by simp
    then show "r \<in> {r \<in> set exons. \<exists>x. ?p \<le> x \<and> x < ?q \<and> start (h ! r) \<le> x \<and> x < end_f (h ! r)}"
      by blast
  next
    fix r assume "r \<in> {r \<in> set exons. \<exists>x. ?p \<le> x \<and> x < ?q \<and> start (h ! r) \<le> x \<and> x < end_f (h ! r)}"
    then obtain x where r: "r \<in> set exons" and x: "?p \<le> x" "x < ?q" "start (h ! r) \<le> x" "x < end_f (h ! r)"
      by blast
    have lo: "start (h ! r) \<in> set ?bs" and hi: "end_f (h ! r) \<in> set ?bs"
      using r by (simp_all only: set_bounds) auto
    from gap lo x have "start (h ! r) \<le> ?p" by force
    moreover from gap hi x have "?q \<le> end_f (h ! r)" by force
    ultimately show "r \<in> covering h exons ?p ?q" using r by (simp add: covering_def)
  qed
  with tp cov sp ep show ?thesis by simp
qed

theorem cobble_transcripts_witness:
  "\<exists>h' pieces. cobble sorted_runtime [exon_E1, exon_E2] [0, 1] False = Inr (h', pieces) \<and>
     3 \<in> set pieces \<and> set (transcripts (h' ! 3)) = {''T1'', ''T2''} \<and>
     set (transcripts (h' ! 3)) =
       (\<Union>r\<in>{r \<in> set [0, 1]. \<exists>x. start (h' ! 3) \<le> x \<and> x < end_f (h' ! 3) \<and>
                    start ([exon_E1, exon_E2] ! r) \<le> x \<and> x < end_f ([exon_E1, exon_E2] ! r)}.
          set (transcripts ([exon_E1, exon_E2] ! r)))"
proof -
  have "3 \<in> set [2, 3, 4::nat]" by simp
  from cobble_transcripts [OF wf_sorted_runtime _ cobble_E1_E2 this]
  have "set (transcripts ([exon_E1, exon_E2,
      exon_E1\<lparr>start := 0, end_f := 50\<rparr>,
      (Exon [''T1'', ''T2''] ''E1E2'' ''G1'' ''Gapdh'' ''chr6'' 50 100 ''E1|E2'' 0 1 2)\<lparr>length_f := 0\<rparr>,
      exon_E2\<lparr>start := 100, end_f := 150\<rparr>] ! 3)) =
       (\<Union>r\<in>{r \<in> set [0, 1]. \<exists>x. start ([exon_E1, exon_E2,
      exon_E1\<lparr>start := 0, end_f := 50\<rparr>,
      (Exon [''T1'', ''T2''] ''E1E2'' ''G1'' ''Gapdh'' ''chr6'' 50 100 ''E1|E2'' 0 1 2)\<lparr>length_f := 0\<rparr>,
      exon_E2\<lparr>start := 100, end_f := 150\<rparr>] ! 3) \<le> x \<and> x < end_f ([exon_E1, exon_E2,
      exon_E1\<lparr>start := 0, end_f := 50\<rparr>,
      (Exon [''T1'', ''T2''] ''E1E2'' ''G1'' ''Gapdh'' ''chr6'' 50 100 ''E1|E2'' 0 1 2)\<lparr>length_f := 0\<rparr>,
      exon_E2\<lparr>start := 100, end_f := 150\<rparr>] ! 3) \<and>
                    start ([exon_E1, exon_E2] ! r) \<le> x \<and> x < end_f ([exon_E1, exon_E2] ! r)}.
          set (transcripts ([exon_E1, exon_E2] ! r)))"
    by simp
  moreover have "set (transcripts ([exon_E1, exon_E2,
      exon_E1\<lparr>start := 0, end_f := 50\<rparr>,
      (Exon [''T1'', ''T2''] ''E1E2'' ''G1'' ''Gapdh'' ''chr6'' 50 100 ''E1|E2'' 0 1 2)\<lparr>length_f := 0\<rparr>,
      exon_E2\<lparr>start := 100, end_f := 150\<rparr>] ! 3)) = {''T1'', ''T2''}"
    by (simp add: Exon_def)
  ultimately show ?thesis using cobble_E1_E2 by (intro exI conjI) (assumption | simp)+
qed

text \<open>
  Claim C10. \<open>cobble\<close> does not change its input: every object of the store before
  the call has all its fields unchanged after it, and every piece is a new object.
\<close>

theorem cobble_frame:
  assumes "cobble rt h exons multiple = Inr (h', pieces)"
  shows "length h \<le> length h' \<and> (\<forall>r<length h. h' ! r = h ! r) \<and> (\<forall>p\<in>set pieces. length h \<le> p)"
  using cobble_loop_frame [of rt "ends h exons" h "[]" "[]" h' pieces] assms
  by (simp add: cobble_def)

theorem cobble_frame_witness:
  "\<exists>h' pieces. cobble sorted_runtime [exon_E1, exon_E2] [0, 1] False = Inr (h', pieces) \<and>
     pieces = [2, 3, 4] \<and> length h' = 5 \<and> h' ! 0 = exon_E1 \<and> h' ! 1 = exon_E2"
  using cobble_frame [OF cobble_E1_E2] cobble_E1_E2 by simp

section \<open>Repeated references\<close>

lemma intersect_exons_list_set:
  "set a = set b \<Longrightarrow> intersect_exons_list rt h a False = intersect_exons_list rt h b False"
  by (simp add: intersect_exons_list_def)

lemma build_cong:
  "map (\<lambda>sp. (fst sp, fst (snd sp), set (snd (snd sp)))) sps
     = map (\<lambda>sp. (fst sp, fst (snd sp), set (snd (snd sp)))) sps'
   \<Longrightarrow> build rt h sps c = build rt h sps' c"
proof (induction sps arbitrary: sps' h c)
  case Nil
  then show ?case by simp
next
  case (Cons sp rest)
  from Cons.prems obtain sp' rest' where s: "sps' = sp' # rest'" by (cases sps') auto
  with Cons.prems have f: "fst sp = fst sp'" "fst (snd sp) = fst (snd sp')"
    and a: "set (snd (snd sp)) = set (snd (snd sp'))"
    and r: "map (\<lambda>sp. (fst sp, fst (snd sp), set (snd (snd sp)))) rest
     = map (\<lambda>sp. (fst sp, fst (snd sp), set (snd (snd sp)))) rest'"
    by simp_all
  show ?case
    by (simp add: s f intersect_exons_list_set [OF a] Cons.IH [OF r] split: sum.splits prod.splits)
qed

lemma covering_set: "set exons = set exons' \<Longrightarrow> covering h exons = covering h exons'"
  by (simp add: covering_def fun_eq_iff)

lemma segments_set:
  "set exons = set exons' \<Longrightarrow> segments h exons ps = segments h exons' ps"
proof (induction h exons ps rule: segments.induct)
  case (1 h exons p q ps)
  then show ?case by (simp add: covering_set [OF "1.prems"])
qed simp_all

lemma segments_remdups_adj: "segments h exons (remdups_adj ps) = segments h exons ps"
proof (induction ps rule: remdups_adj.induct)
  case (3 x y xs)
  show ?case
  proof (cases "x = y")
    case True
    with 3 show ?thesis by simp
  next
    case False
    obtain zs where zs: "remdups_adj (y # xs) = y # zs"
      by (metis remdups_adj_Cons_alt)
    with 3 False show ?thesis by simp
  qed
qed simp_all

lemma distinct_remdups_adj_sorted: "sorted (xs :: int list) \<Longrightarrow> distinct (remdups_adj xs)"
proof (induction xs rule: remdups_adj.induct)
  case (3 x y xs)
  then show ?case by (cases "x = y") auto
qed simp_all

lemma segments_sorted_set:
  assumes "sorted ps" and "sorted ps'" and "set ps = set ps'"
  shows "segments h exons ps = segments h exons ps'"
proof -
  have "remdups_adj ps = remdups_adj ps'"
    using assms by (intro sorted_distinct_set_unique) (simp_all add: distinct_remdups_adj_sorted)
  then show ?thesis by (metis segments_remdups_adj)
qed

text \<open>
  Claim C6, as the code has it. For exons of positive length, \<open>cobble\<close> returns the
  same result (store, pieces, or error) for a list with repeated references as for the
  list without the repetitions, whatever \<open>multiple\<close> is: the active features are
  deduplicated by identity when each piece is made.
\<close>

theorem cobble_duplicates:
  assumes pos: "\<forall>r\<in>set exons. start (h ! r) < end_f (h ! r)"
  shows "cobble rt h exons multiple = cobble rt h (remdups exons) multiple'"
proof -
  have p1: "positive h exons" and p2: "positive h (remdups exons)"
    using pos by (simp_all add: positive_def)
  have "set (map fst (ends h exons)) = set (map fst (ends h (remdups exons)))"
    by (simp only: set_bounds set_remdups)
  from segments_sorted_set [OF sorted_bounds sorted_bounds this]
  have "segments h exons (map fst (ends h exons))
      = segments h exons (map fst (ends h (remdups exons)))" .
  also have "\<dots> = segments h (remdups exons) (map fst (ends h (remdups exons)))"
    by (rule segments_set) simp
  finally have "segments h exons (map fst (ends h exons))
      = segments h (remdups exons) (map fst (ends h (remdups exons)))" .
  then have "map (\<lambda>sp. (fst sp, fst (snd sp), set (snd (snd sp)))) (spans (ends h exons) [])
     = map (\<lambda>sp. (fst sp, fst (snd sp), set (snd (snd sp)))) (spans (ends h (remdups exons)) [])"
    by (simp only: spans_ends [OF p1] spans_ends [OF p2])
  from build_cong [OF this] show ?thesis
    by (simp only: cobble_build [OF p1] cobble_build [OF p2])
qed

theorem cobble_duplicates_witness:
  "cobble sorted_runtime [exon_E1, exon_E2] [0, 1, 0] False
     = cobble sorted_runtime [exon_E1, exon_E2] (remdups [0, 1, 0]) True"
  by (rule cobble_duplicates) (simp add: exon_E1_def exon_E2_def Exon_def)

text \<open>
  Claim C6 as stated fails: the boundary events are built from every reference, the
  repeated ones included, so the input is not deduplicated before the events are built.
\<close>

theorem ends_keep_duplicates:
  "ends [exon_E1] [0, 0] = [(0, 1, 0), (0, 1, 0), (100, 0, 0), (100, 0, 0)] \<and>
   ends [exon_E1] [0, 0] \<noteq> ends [exon_E1] (remdups [0, 0])"
  by (simp add: ends_def exon_E1_def Exon_def)

section \<open>The structure matrix\<close>

lemma map_of_map_upd:
  "map_of (map (\<lambda>kv. if fst kv = k then (fst kv, snd kv @ [v]) else kv) d) k'
     = (if k' = k then map_option (\<lambda>vs. vs @ [v]) (map_of d k) else map_of d k')"
  by (induction d) auto

lemma map_of_setdefault_append:
  "map_of (setdefault_append d k v) k'
     = (if k' = k then Some ((case map_of d k of None \<Rightarrow> [] | Some vs \<Rightarrow> vs) @ [v])
        else map_of d k')"
  by (auto simp: setdefault_append_def map_of_map_upd map_add_def split: option.splits)

lemma keys_setdefault_append:
  "map fst (setdefault_append d k v)
     = (if k \<in> set (map fst d) then map fst d else map fst d @ [k])"
proof (cases "map_of d k")
  case None
  then have "k \<notin> set (map fst d)" by (simp add: map_of_eq_None_iff)
  with None show ?thesis by (simp add: setdefault_append_def)
next
  case (Some vs)
  then have "k \<in> set (map fst d)" by (metis map_of_eq_None_iff option.distinct(1) set_map)
  moreover have "map fst (map (\<lambda>kv. if fst kv = k then (fst kv, snd kv @ [v]) else kv) d) = map fst d"
    by (induction d) auto
  ultimately show ?thesis using Some by (simp add: setdefault_append_def)
qed

lemma vals_of_simps [simp]:
  "vals_of k [] = []"
  "vals_of k (kv # kvs) = (if fst kv = k then snd kv # vals_of k kvs else vals_of k kvs)"
  "vals_of k (xs @ ys) = vals_of k xs @ vals_of k ys"
  by (simp_all add: vals_of_def)

lemma group_pairs_simps [simp]:
  "group_pairs [] d = d"
  "group_pairs (kv # kvs) d = group_pairs kvs (setdefault_append d (fst kv) (snd kv))"
  "group_pairs (xs @ ys) d = group_pairs ys (group_pairs xs d)"
  by (simp_all add: group_pairs_def)

lemma map_of_group_pairs:
  "map_of (group_pairs kvs d) k
     = (if map_of d k = None \<and> vals_of k kvs = [] then None
        else Some ((case map_of d k of None \<Rightarrow> [] | Some vs \<Rightarrow> vs) @ vals_of k kvs))"
proof (induction kvs arbitrary: d)
  case Nil
  then show ?case by (simp split: option.splits)
next
  case (Cons kv kvs)
  show ?case
    by (simp add: Cons.IH map_of_setdefault_append split: option.splits)
qed

lemma distinct_keys_group_pairs:
  "distinct (map fst d) \<Longrightarrow> distinct (map fst (group_pairs kvs d))"
proof (induction kvs arbitrary: d)
  case Nil
  then show ?case by simp
next
  case (Cons kv kvs)
  have "distinct (map fst (setdefault_append d (fst kv) (snd kv)))"
    using Cons.prems by (simp add: keys_setdefault_append)
  from Cons.IH [OF this] show ?case by simp
qed

lemma set_keys_group_pairs:
  "set (map fst (group_pairs kvs d)) = set (map fst d) \<union> fst ` set kvs"
proof (induction kvs arbitrary: d)
  case Nil
  then show ?case by simp
next
  case (Cons kv kvs)
  have "set (map fst (setdefault_append d (fst kv) (snd kv))) = insert (fst kv) (set (map fst d))"
    by (auto simp: keys_setdefault_append)
  with Cons.IH [of "setdefault_append d (fst kv) (snd kv)"] show ?case by simp
qed

lemma fold_setdefault_append:
  "fold (\<lambda>t d. setdefault_append d t c) ts d = group_pairs (map (\<lambda>t. (t, c)) ts) d"
  by (induction ts arbitrary: d) simp_all

lemma tp_map_group:
  "tp_map ps = group_pairs (concat (map (\<lambda>p. map (\<lambda>tx. (tx, name p)) (transcripts p)) ps)) []"
proof -
  have "fold (\<lambda>p d. fold (\<lambda>tx d. setdefault_append d tx (name p)) (transcripts p) d) ps d
      = group_pairs (concat (map (\<lambda>p. map (\<lambda>tx. (tx, name p)) (transcripts p)) ps)) d" for d
    by (induction ps arbitrary: d) (simp_all add: fold_setdefault_append)
  then show ?thesis by (simp add: tp_map_def)
qed

lemma t2e_group:
  "t2e ps = group_pairs (concat (map (\<lambda>p. if length_f p < 100 then []
                                          else map (\<lambda>t. (t, id_f p)) (transcripts p)) ps)) []"
proof -
  have "fold (\<lambda>p d. if length_f p < 100 then d
                  else fold (\<lambda>t d. setdefault_append d t (id_f p)) (transcripts p) d) ps d
      = group_pairs (concat (map (\<lambda>p. if length_f p < 100 then []
                                          else map (\<lambda>t. (t, id_f p)) (transcripts p)) ps)) d" for d
    by (induction ps arbitrary: d) (simp_all add: fold_setdefault_append)
  then show ?thesis by (simp add: t2e_def)
qed

lemma vals_of_const:
  "distinct ts \<Longrightarrow> vals_of t (map (\<lambda>tx. (tx, c)) ts) = (if t \<in> set ts then [c] else [])"
  by (induction ts) auto

lemma length_vals_tp:
  "\<forall>p\<in>set ps. distinct (transcripts p) \<Longrightarrow>
     vals_of t (concat (map (\<lambda>p. map (\<lambda>tx. (tx, name p)) (transcripts p)) ps))
       = map name (filter (\<lambda>q. t \<in> set (transcripts q)) ps)"
  by (induction ps) (simp_all add: vals_of_const)

lemma map_of_tp_map:
  assumes "\<forall>p\<in>set ps. distinct (transcripts p)"
  shows "map_of (tp_map ps) t
     = (if pieces_with ps t = 0 then None
        else Some (map name (filter (\<lambda>q. t \<in> set (transcripts q)) ps)))"
  by (simp add: tp_map_group map_of_group_pairs length_vals_tp [OF assms] pieces_with_def)

lemma map_err_Inr: "\<forall>x\<in>set xs. f x = Inr (g x) \<Longrightarrow> map_err f xs = Inr (map g xs)"
  by (induction xs) simp_all

lemma pieces_with_pos: "p \<in> set ps \<Longrightarrow> t \<in> set (transcripts p) \<Longrightarrow> 0 < pieces_with ps t"
  by (auto simp: pieces_with_def filter_empty_conv)

lemma Avals_value:
  assumes dist: "\<forall>p\<in>set ps. distinct (transcripts p)"
    and ts: "set ts \<subseteq> (\<Union>p\<in>set ps. set (transcripts p))"
  shows "Avals (tp_map ps) ts ps
     = Inr (map (\<lambda>p. map (\<lambda>t. (if t \<in> set (transcripts p) then 1 else 0) / real (pieces_with ps t)) ts) ps)"
proof -
  have entry: "Avals_entry (tp_map ps) p t
      = Inr ((if t \<in> set (transcripts p) then 1 else 0) / real (pieces_with ps t))"
    if "t \<in> set ts" for p t
  proof -
    from ts that obtain q where "q \<in> set ps" "t \<in> set (transcripts q)" by auto
    then have "0 < pieces_with ps t" by (rule pieces_with_pos)
    then show ?thesis
      by (simp add: Avals_entry_def map_of_tp_map [OF dist]) (simp add: pieces_with_def)
  qed
  have row: "map_err (Avals_entry (tp_map ps) p) ts
      = Inr (map (\<lambda>t. (if t \<in> set (transcripts p) then 1 else 0) / real (pieces_with ps t)) ts)" for p
    by (rule map_err_Inr) (simp add: entry)
  show ?thesis unfolding Avals_def by (rule map_err_Inr) (simp add: row)
qed

lemma sum_list_indicator:
  "sum_list (map (\<lambda>p. (if P p then 1 else 0) / (c::real)) ps) = real (length (filter P ps)) / c"
  by (induction ps) (simp_all add: add_divide_distrib)

lemma filter_transcripts_props:
  assumes wf: "wf_runtime rt"
  shows "\<forall>p\<in>set (fst (filter_transcripts rt pieces)). distinct (transcripts p)"
    and "set (snd (filter_transcripts rt pieces))
           = (\<Union>p\<in>set (fst (filter_transcripts rt pieces)). set (transcripts p))"
    and "length (fst (filter_transcripts rt pieces)) = length pieces"
proof -
  have fin: "finite (filtered rt pieces p)" for p by (simp add: filtered_def)
  have s: "set (iter_strs rt (filtered rt pieces p)) = filtered rt pieces p" for p
    using wf fin by (simp add: wf_runtime_def)
  have d: "distinct (iter_strs rt (filtered rt pieces p))" for p
    using wf fin by (simp add: wf_runtime_def)
  show "\<forall>p\<in>set (fst (filter_transcripts rt pieces)). distinct (transcripts p)"
    by (auto simp: filter_transcripts_def d)
  have "finite (\<Union>p\<in>set pieces. filtered rt pieces p)" using fin by simp
  then have "set (iter_strs rt (\<Union>p\<in>set pieces. filtered rt pieces p))
      = (\<Union>p\<in>set pieces. filtered rt pieces p)"
    using wf by (simp add: wf_runtime_def)
  then show "set (snd (filter_transcripts rt pieces))
           = (\<Union>p\<in>set (fst (filter_transcripts rt pieces)). set (transcripts p))"
    by (simp add: filter_transcripts_def s)
  show "length (fst (filter_transcripts rt pieces)) = length pieces"
    by (simp add: filter_transcripts_def)
qed

lemma structure_matrix_value:
  assumes wf: "wf_runtime rt"
  shows "structure_matrix rt pieces
     = Inr (map (\<lambda>p. map (\<lambda>t. (if t \<in> set (transcripts p) then 1 else 0)
                                / real (pieces_with (fst (filter_transcripts rt pieces)) t))
                      (snd (filter_transcripts rt pieces)))
              (fst (filter_transcripts rt pieces)))"
  unfolding structure_matrix_def
  using filter_transcripts_props(1,2) [OF wf, of pieces]
  by (intro Avals_value) simp_all

text \<open>
  Claim C3. The matrix is built without error, has one row per piece and one column per
  remaining transcript, and the entries of every column sum to exactly 1 (each remaining
  transcript is in at least one piece).
\<close>

theorem structure_matrix_columns:
  assumes wf: "wf_runtime rt"
  shows "\<exists>A. structure_matrix rt pieces = Inr A \<and> length A = length pieces \<and>
     (\<forall>row\<in>set A. length row = length (snd (filter_transcripts rt pieces))) \<and>
     (\<forall>j<length (snd (filter_transcripts rt pieces)). sum_list (map (\<lambda>row. row ! j) A) = 1)"
proof -
  let ?ps = "fst (filter_transcripts rt pieces)" and ?ts = "snd (filter_transcripts rt pieces)"
  let ?A = "map (\<lambda>p. map (\<lambda>t. (if t \<in> set (transcripts p) then 1 else 0)
                                / real (pieces_with ?ps t)) ?ts) ?ps"
  have "sum_list (map (\<lambda>row. row ! j) ?A) = 1" if j: "j < length ?ts" for j
  proof -
    let ?t = "?ts ! j"
    have "?t \<in> set ?ts" using j by simp
    then obtain q where "q \<in> set ?ps" "?t \<in> set (transcripts q)"
      using filter_transcripts_props(2) [OF wf, of pieces] by auto
    then have pos: "0 < pieces_with ?ps ?t" by (rule pieces_with_pos)
    have "map (\<lambda>row. row ! j) ?A
        = map (\<lambda>p. (if ?t \<in> set (transcripts p) then 1 else 0) / real (pieces_with ?ps ?t)) ?ps"
      using j by (simp add: comp_def)
    then have "sum_list (map (\<lambda>row. row ! j) ?A)
        = real (length (filter (\<lambda>p. ?t \<in> set (transcripts p)) ?ps)) / real (pieces_with ?ps ?t)"
      by (simp only: sum_list_indicator)
    with pos show ?thesis by (simp add: pieces_with_def)
  qed
  moreover have "length ?A = length pieces"
    by (simp add: filter_transcripts_props(3) [OF wf])
  moreover have "\<forall>row\<in>set ?A. length row = length ?ts" by auto
  ultimately show ?thesis using structure_matrix_value [OF wf, of pieces] by blast
qed

text \<open>
  Claim C4, as the code has it. The entry of a piece and a remaining transcript \<open>t\<close> is
  \<open>1/k\<close> when the piece contains \<open>t\<close> and 0 otherwise, where \<open>k\<close> is the number of
  all rewritten pieces that contain \<open>t\<close>, whatever their length; an entry is 0 exactly
  when the piece does not contain \<open>t\<close>.
\<close>

theorem structure_matrix_entries:
  assumes wf: "wf_runtime rt"
  shows "\<exists>A. structure_matrix rt pieces = Inr A \<and>
     (\<forall>i<length (fst (filter_transcripts rt pieces)).
      \<forall>j<length (snd (filter_transcripts rt pieces)).
        A ! i ! j =
          (if snd (filter_transcripts rt pieces) ! j
                \<in> set (transcripts (fst (filter_transcripts rt pieces) ! i))
           then 1 / real (pieces_with (fst (filter_transcripts rt pieces))
                            (snd (filter_transcripts rt pieces) ! j))
           else 0) \<and>
        (A ! i ! j = 0 \<longleftrightarrow>
           snd (filter_transcripts rt pieces) ! j
             \<notin> set (transcripts (fst (filter_transcripts rt pieces) ! i))))"
proof -
  let ?ps = "fst (filter_transcripts rt pieces)" and ?ts = "snd (filter_transcripts rt pieces)"
  let ?A = "map (\<lambda>p. map (\<lambda>t. (if t \<in> set (transcripts p) then 1 else 0)
                                / real (pieces_with ?ps t)) ?ts) ?ps"
  have "?A ! i ! j = (if ?ts ! j \<in> set (transcripts (?ps ! i))
           then 1 / real (pieces_with ?ps (?ts ! j)) else 0) \<and>
        (?A ! i ! j = 0 \<longleftrightarrow> ?ts ! j \<notin> set (transcripts (?ps ! i)))"
    if i: "i < length ?ps" and j: "j < length ?ts" for i j
  proof (cases "?ts ! j \<in> set (transcripts (?ps ! i))")
    case True
    have "?ps ! i \<in> set ?ps" using i by simp
    from pieces_with_pos [OF this True] True i j show ?thesis by simp
  next
    case False
    with i j show ?thesis by simp
  qed
  with structure_matrix_value [OF wf, of pieces] show ?thesis by blast
qed


theorem structure_matrix_columns_witness:
  "\<exists>A. structure_matrix sorted_runtime [piece_P1, piece_P2] = Inr A \<and>
     length A = length [piece_P1, piece_P2] \<and>
     (\<forall>row\<in>set A. length row = length (snd (filter_transcripts sorted_runtime [piece_P1, piece_P2]))) \<and>
     (\<forall>j<length (snd (filter_transcripts sorted_runtime [piece_P1, piece_P2])).
        sum_list (map (\<lambda>row. row ! j) A) = 1)"
  by (rule structure_matrix_columns [OF wf_sorted_runtime])

lemma filter_transcripts_P:
  "filter_transcripts sorted_runtime [piece_P1, piece_P2] = ([piece_P1, piece_P2], [''T1''])"
  by (simp add: filter_transcripts_def filtered_def t2e_def e2t_def tx_replace_def dict_of_def
      get_or_self_def setdefault_append_def sorted_runtime_def piece_P1_def piece_P2_def Exon_def)

text \<open>The two sample pieces are what \<^verbatim>\<open>cobble\<close> returns for two exons of one
  transcript.\<close>

lemma cobble_P:
  "cobble sorted_runtime [piece_P1, piece_P2] [0, 1] False
     = Inr ([piece_P1, piece_P2, piece_P1, piece_P2], [2, 3])"
  by (simp add: cobble_def ends_def intersect_exons_list_def list_remove_def sorted_runtime_def
      piece_P1_def piece_P2_def Exon_def)

text \<open>
  Claim C4 as stated fails: with a piece of length 150 and a piece of length 40 of the
  same transcript, one piece reaches the threshold of 100, and the entries are 1/2.
\<close>

theorem structure_matrix_short_piece:
  "structure_matrix sorted_runtime [piece_P1, piece_P2] = Inr [[1 / 2], [1 / 2]] \<and>
   snd (filter_transcripts sorted_runtime [piece_P1, piece_P2]) = [''T1''] \<and>
   length (filter (\<lambda>p. 100 \<le> length_f p \<and> ''T1'' \<in> set (transcripts p))
             (fst (filter_transcripts sorted_runtime [piece_P1, piece_P2]))) = 1"
  by (simp add: structure_matrix_def filter_transcripts_P Avals_def Avals_entry_def tp_map_def
      setdefault_append_def) (simp add: piece_P1_def piece_P2_def Exon_def)

theorem structure_matrix_entries_witness:
  "\<exists>A. structure_matrix sorted_runtime [piece_P1, piece_P2] = Inr A \<and>
     (\<forall>i<length (fst (filter_transcripts sorted_runtime [piece_P1, piece_P2])).
      \<forall>j<length (snd (filter_transcripts sorted_runtime [piece_P1, piece_P2])).
        A ! i ! j =
          (if snd (filter_transcripts sorted_runtime [piece_P1, piece_P2]) ! j
                \<in> set (transcripts (fst (filter_transcripts sorted_runtime [piece_P1, piece_P2]) ! i))
           then 1 / real (pieces_with (fst (filter_transcripts sorted_runtime [piece_P1, piece_P2]))
                            (snd (filter_transcripts sorted_runtime [piece_P1, piece_P2]) ! j))
           else 0) \<and>
        (A ! i ! j = 0 \<longleftrightarrow>
           snd (filter_transcripts sorted_runtime [piece_P1, piece_P2]) ! j
             \<notin> set (transcripts (fst (filter_transcripts sorted_runtime [piece_P1, piece_P2]) ! i))))"
  by (rule structure_matrix_entries [OF wf_sorted_runtime])

section \<open>Collapsing similar transcripts\<close>

lemma piece_ids_distinct:
  "\<forall>p\<in>set ps. distinct (transcripts p) \<Longrightarrow>
     piece_ids ps t = map id_f (filter (\<lambda>p. \<not> length_f p < 100 \<and> t \<in> set (transcripts p)) ps)"
  unfolding piece_ids_def by (induction ps) (simp_all add: vals_of_const)

lemma map_of_t2e:
  "map_of (t2e ps) t = (if piece_ids ps t = [] then None else Some (piece_ids ps t))"
  by (simp add: t2e_group map_of_group_pairs piece_ids_def)

lemma distinct_keys_t2e: "distinct (map fst (t2e ps))"
  by (simp add: t2e_group distinct_keys_group_pairs)

lemma t2e_mem: "(t, e) \<in> set (t2e ps) \<longleftrightarrow> piece_ids ps t \<noteq> [] \<and> e = piece_ids ps t"
  using map_of_eq_Some_iff [OF distinct_keys_t2e, of ps t e]
  by (auto simp: map_of_t2e split: if_splits)

lemma iter_t2e_props:
  assumes wf: "wf_runtime rt"
  shows "set (iter_t2e rt d) = set d" and "distinct (map fst d) \<Longrightarrow> distinct (map fst (iter_t2e rt d))"
proof -
  have m: "mset (iter_t2e rt d) = mset d" using wf by (simp add: wf_runtime_def)
  then show "set (iter_t2e rt d) = set d" by (rule mset_eq_setD)
  have "mset (map fst (iter_t2e rt d)) = mset (map fst d)" using m by (metis mset_map)
  then show "distinct (map fst d) \<Longrightarrow> distinct (map fst (iter_t2e rt d))"
    by (metis mset_eq_imp_distinct_iff)
qed

lemma iter_e2t_props:
  assumes wf: "wf_runtime rt"
  shows "set (iter_e2t rt d) = set d"
proof -
  have m: "mset (iter_e2t rt d) = mset d" using wf by (simp add: wf_runtime_def)
  then show "set (iter_e2t rt d) = set d" by (rule mset_eq_setD)
qed

lemma e2t_group:
  "e2t rt d = group_pairs (map (\<lambda>te. (sort (snd te), fst te)) (iter_t2e rt d)) []"
proof -
  have "fold (\<lambda>te d'. setdefault_append d' (sort (snd te)) (fst te)) xs d0
      = group_pairs (map (\<lambda>te. (sort (snd te), fst te)) xs) d0" for xs d0
    by (induction xs arbitrary: d0) simp_all
  then show ?thesis by (simp add: e2t_def)
qed

lemma vals_of_map_sig:
  "vals_of s (map (\<lambda>te. (sort (snd te), fst te)) xs) = map fst (filter (\<lambda>te. sort (snd te) = s) xs)"
  by (induction xs) simp_all

lemma e2t_mem:
  "(s, G) \<in> set (e2t rt (t2e ps)) \<longleftrightarrow> grp rt ps s \<noteq> [] \<and> G = grp rt ps s"
proof -
  have d: "distinct (map fst (e2t rt (t2e ps)))"
    by (simp add: e2t_group distinct_keys_group_pairs)
  have "map_of (e2t rt (t2e ps)) s = (if grp rt ps s = [] then None else Some (grp rt ps s))"
    by (simp add: e2t_group map_of_group_pairs vals_of_map_sig grp_def)
  with map_of_eq_Some_iff [OF d, of s G] show ?thesis by (auto split: if_splits)
qed

lemma grp_mem:
  assumes wf: "wf_runtime rt"
  shows "u \<in> set (grp rt ps s) \<longleftrightarrow> piece_ids ps u \<noteq> [] \<and> signature ps u = s"
proof
  assume "u \<in> set (grp rt ps s)"
  then obtain e where "(u, e) \<in> set (t2e ps)" and "sort e = s"
    by (auto simp: grp_def iter_t2e_props(1) [OF wf])
  then show "piece_ids ps u \<noteq> [] \<and> signature ps u = s"
    by (simp add: t2e_mem signature_def)
next
  assume a: "piece_ids ps u \<noteq> [] \<and> signature ps u = s"
  then have "(u, piece_ids ps u) \<in> set (t2e ps)" by (simp add: t2e_mem)
  with a have "(u, piece_ids ps u) \<in> set (filter (\<lambda>te. sort (snd te) = s) (iter_t2e rt (t2e ps)))"
    by (simp add: iter_t2e_props(1) [OF wf] signature_def)
  then have "fst (u, piece_ids ps u) \<in> set (grp rt ps s)"
    unfolding grp_def set_map by (rule imageI)
  then show "u \<in> set (grp rt ps s)" by simp
qed

lemma grp_distinct:
  assumes wf: "wf_runtime rt"
  shows "distinct (grp rt ps s)"
  unfolding grp_def
  by (rule distinct_map_filter) (rule iter_t2e_props(2) [OF wf distinct_keys_t2e])

lemma tx_replace_mem:
  assumes wf: "wf_runtime rt"
  shows "(t, r) \<in> set (tx_replace rt (e2t rt (t2e ps)))
     \<longleftrightarrow> (\<exists>s. grp rt ps s \<noteq> [] \<and> t \<in> set (tl (grp rt ps s)) \<and> r = hd (grp rt ps s))"
proof -
  have "(t, r) \<in> set (tx_replace rt (e2t rt (t2e ps)))
     \<longleftrightarrow> (\<exists>sG\<in>set (e2t rt (t2e ps)). t \<in> set (drop 1 (snd sG)) \<and> 1 < length (snd sG) \<and> r = snd sG ! 0)"
    by (auto simp: tx_replace_def iter_e2t_props [OF wf])
  also have "\<dots> \<longleftrightarrow> (\<exists>s. grp rt ps s \<noteq> [] \<and> t \<in> set (drop 1 (grp rt ps s)) \<and>
       1 < length (grp rt ps s) \<and> r = grp rt ps s ! 0)"
  proof
    assume "\<exists>sG\<in>set (e2t rt (t2e ps)). t \<in> set (drop 1 (snd sG)) \<and> 1 < length (snd sG) \<and> r = snd sG ! 0"
    then obtain s G where "(s, G) \<in> set (e2t rt (t2e ps))"
      and "t \<in> set (drop 1 G) \<and> 1 < length G \<and> r = G ! 0" by auto
    then show "\<exists>s. grp rt ps s \<noteq> [] \<and> t \<in> set (drop 1 (grp rt ps s)) \<and>
       1 < length (grp rt ps s) \<and> r = grp rt ps s ! 0"
      by (auto simp: e2t_mem)
  next
    assume "\<exists>s. grp rt ps s \<noteq> [] \<and> t \<in> set (drop 1 (grp rt ps s)) \<and>
       1 < length (grp rt ps s) \<and> r = grp rt ps s ! 0"
    then obtain s where g: "grp rt ps s \<noteq> []" and p: "t \<in> set (drop 1 (grp rt ps s)) \<and>
       1 < length (grp rt ps s) \<and> r = grp rt ps s ! 0" by blast
    from g have "(s, grp rt ps s) \<in> set (e2t rt (t2e ps))" by (simp add: e2t_mem)
    with p show "\<exists>sG\<in>set (e2t rt (t2e ps)). t \<in> set (drop 1 (snd sG)) \<and> 1 < length (snd sG) \<and> r = snd sG ! 0"
      by force
  qed
  also have "\<dots> \<longleftrightarrow> (\<exists>s. grp rt ps s \<noteq> [] \<and> t \<in> set (tl (grp rt ps s)) \<and> r = hd (grp rt ps s))"
  proof -
    have "G \<noteq> [] \<and> t \<in> set (drop 1 G) \<and> 1 < length G \<and> r = G ! 0
        \<longleftrightarrow> G \<noteq> [] \<and> t \<in> set (tl G) \<and> r = hd G" for G :: "string list"
      by (cases G) (auto simp: drop_Suc)
    then show ?thesis by blast
  qed
  finally show ?thesis .
qed

lemma replaced_cases:
  "replaced rt ps t = t \<and> t \<notin> fst ` set (tx_replace rt (e2t rt (t2e ps)))
   \<or> (t, replaced rt ps t) \<in> set (tx_replace rt (e2t rt (t2e ps)))"
proof (cases "map_of (rev (tx_replace rt (e2t rt (t2e ps)))) t")
  case None
  then have "t \<notin> fst ` set (tx_replace rt (e2t rt (t2e ps)))"
    by (simp add: map_of_eq_None_iff)
  with None show ?thesis by (simp add: replaced_def get_or_self_def dict_of_def)
next
  case (Some r)
  then have "(t, r) \<in> set (tx_replace rt (e2t rt (t2e ps)))"
    using map_of_SomeD by fastforce
  with Some show ?thesis by (simp add: replaced_def get_or_self_def dict_of_def)
qed

lemma replaced_hd:
  assumes wf: "wf_runtime rt" and k: "piece_ids ps t \<noteq> []"
  shows "replaced rt ps t = hd (grp rt ps (signature ps t))"
proof -
  let ?G = "grp rt ps (signature ps t)"
  have tG: "t \<in> set ?G" using k by (simp add: grp_mem [OF wf])
  have same: "grp rt ps s = ?G" if "t \<in> set (grp rt ps s)" for s
    using that by (simp add: grp_mem [OF wf])
  from replaced_cases [of rt ps t] show ?thesis
  proof
    assume a: "replaced rt ps t = t \<and> t \<notin> fst ` set (tx_replace rt (e2t rt (t2e ps)))"
    have "t \<notin> set (tl ?G)"
    proof
      assume "t \<in> set (tl ?G)"
      with tG have "\<exists>s. grp rt ps s \<noteq> [] \<and> t \<in> set (tl (grp rt ps s)) \<and> hd ?G = hd (grp rt ps s)"
        by (intro exI [of _ "signature ps t"]) auto
      then have "(t, hd ?G) \<in> set (tx_replace rt (e2t rt (t2e ps)))"
        by (simp only: tx_replace_mem [OF wf])
      with a show False by force
    qed
    with tG have "t = hd ?G" by (cases ?G) auto
    with a show ?thesis by simp
  next
    assume "(t, replaced rt ps t) \<in> set (tx_replace rt (e2t rt (t2e ps)))"
    then obtain s where s: "t \<in> set (tl (grp rt ps s))" "replaced rt ps t = hd (grp rt ps s)"
      "grp rt ps s \<noteq> []"
      by (auto simp: tx_replace_mem [OF wf])
    then have "t \<in> set (grp rt ps s)" by (cases "grp rt ps s") auto
    from same [OF this] s show ?thesis by simp
  qed
qed

lemma replaced_outside:
  assumes wf: "wf_runtime rt" and k: "piece_ids ps t = []"
  shows "replaced rt ps t = t"
proof -
  from replaced_cases [of rt ps t] show ?thesis
  proof
    assume "(t, replaced rt ps t) \<in> set (tx_replace rt (e2t rt (t2e ps)))"
    then obtain s where s: "t \<in> set (tl (grp rt ps s))" "grp rt ps s \<noteq> []"
      by (auto simp: tx_replace_mem [OF wf])
    then have "t \<in> set (grp rt ps s)" by (cases "grp rt ps s") auto
    with k show ?thesis by (simp add: grp_mem [OF wf])
  qed simp
qed

lemma replaced_props:
  assumes wf: "wf_runtime rt" and k: "piece_ids ps t \<noteq> []"
  shows "piece_ids ps (replaced rt ps t) \<noteq> []"
    and "signature ps (replaced rt ps t) = signature ps t"
proof -
  let ?G = "grp rt ps (signature ps t)"
  have "t \<in> set ?G" using k by (simp add: grp_mem [OF wf])
  then have "hd ?G \<in> set ?G" by (cases ?G) auto
  then have "piece_ids ps (hd ?G) \<noteq> [] \<and> signature ps (hd ?G) = signature ps t"
    by (simp add: grp_mem [OF wf])
  then show "piece_ids ps (replaced rt ps t) \<noteq> []"
    and "signature ps (replaced rt ps t) = signature ps t"
    by (simp_all add: replaced_hd [OF wf k])
qed

lemma replaced_same:
  assumes wf: "wf_runtime rt" and "piece_ids ps t \<noteq> []" and "piece_ids ps t' \<noteq> []"
    and "signature ps t = signature ps t'"
  shows "replaced rt ps t = replaced rt ps t'"
  using assms by (simp add: replaced_hd)


lemma filtered_replaced: "filtered rt ps p = replaced rt ps ` set (transcripts p)"
  by (simp add: filtered_def replaced_def)

lemma fst_filter_transcripts:
  "fst (filter_transcripts rt ps)
     = map (\<lambda>p. p\<lparr>transcripts := iter_strs rt (replaced rt ps ` set (transcripts p))\<rparr>) ps"
  by (simp add: filter_transcripts_def filtered_replaced)

lemma in_piece_ids:
  assumes dist: "\<forall>p\<in>set ps. distinct (transcripts p)"
  shows "i \<in> set (piece_ids ps t)
     \<longleftrightarrow> (\<exists>p\<in>set ps. \<not> length_f p < 100 \<and> t \<in> set (transcripts p) \<and> id_f p = i)"
  by (auto simp: piece_ids_distinct [OF dist])

lemma piece_ids_nonempty:
  assumes dist: "\<forall>p\<in>set ps. distinct (transcripts p)"
    and "p \<in> set ps" and "\<not> length_f p < 100" and "t \<in> set (transcripts p)"
  shows "piece_ids ps t \<noteq> []"
proof -
  have "id_f p \<in> set (piece_ids ps t)" using assms by (auto simp: in_piece_ids [OF dist])
  then show ?thesis by auto
qed

lemma same_long_pieces:
  assumes dist: "\<forall>p\<in>set ps. distinct (transcripts p)"
    and ids: "\<forall>p\<in>set ps. \<forall>q\<in>set ps. \<not> length_f p < 100 \<and> \<not> length_f q < 100 \<and> id_f p = id_f q
               \<longrightarrow> set (transcripts p) = set (transcripts q)"
    and sg: "signature ps u = signature ps t"
    and p: "p \<in> set ps" "\<not> length_f p < 100" "u \<in> set (transcripts p)"
  shows "t \<in> set (transcripts p)"
proof -
  have "id_f p \<in> set (piece_ids ps u)" using p by (auto simp: in_piece_ids [OF dist])
  then have "id_f p \<in> set (signature ps u)" by (simp add: signature_def)
  then have "id_f p \<in> set (piece_ids ps t)" by (simp add: sg) (simp add: signature_def)
  then obtain q where q: "q \<in> set ps" "\<not> length_f q < 100" "t \<in> set (transcripts q)"
    "id_f q = id_f p"
    by (auto simp: in_piece_ids [OF dist])
  with ids p have "set (transcripts p) = set (transcripts q)" by metis
  with q show ?thesis by simp
qed

lemma replaced_image_long:
  assumes wf: "wf_runtime rt"
    and dist: "\<forall>p\<in>set ps. distinct (transcripts p)"
    and ids: "\<forall>p\<in>set ps. \<forall>q\<in>set ps. \<not> length_f p < 100 \<and> \<not> length_f q < 100 \<and> id_f p = id_f q
               \<longrightarrow> set (transcripts p) = set (transcripts q)"
    and p: "p \<in> set ps" "\<not> length_f p < 100"
    and t: "t \<in> replaced rt ps ` set (transcripts p)"
  shows "t \<in> set (transcripts p) \<and> replaced rt ps t = t \<and> piece_ids ps t \<noteq> []"
proof -
  from t obtain u where u: "u \<in> set (transcripts p)" and tu: "t = replaced rt ps u" by auto
  have ku: "piece_ids ps u \<noteq> []" by (rule piece_ids_nonempty [OF dist p u])
  have kt: "piece_ids ps t \<noteq> []" and sg: "signature ps t = signature ps u"
    using replaced_props [OF wf ku] tu by simp_all
  have "replaced rt ps t = replaced rt ps u" by (rule replaced_same [OF wf kt ku sg])
  then have fp: "replaced rt ps t = t" using tu by simp
  have "t \<in> set (transcripts p)"
    by (rule same_long_pieces [OF dist ids sg [symmetric] p u])
  with fp kt show ?thesis by simp
qed

lemma second_pass_distinct:
  assumes wf: "wf_runtime rt"
  shows "\<forall>p\<in>set (fst (filter_transcripts rt ps)). distinct (transcripts p)"
  by (rule filter_transcripts_props(1) [OF wf])

lemma iter_strs_image:
  assumes wf: "wf_runtime rt"
  shows "set (iter_strs rt (f ` set xs)) = f ` set xs"
  using wf by (simp add: wf_runtime_def)

lemma piece_ids_second_pass:
  assumes wf: "wf_runtime rt"
    and dist: "\<forall>p\<in>set ps. distinct (transcripts p)"
    and ids: "\<forall>p\<in>set ps. \<forall>q\<in>set ps. \<not> length_f p < 100 \<and> \<not> length_f q < 100 \<and> id_f p = id_f q
               \<longrightarrow> set (transcripts p) = set (transcripts q)"
  shows "piece_ids (fst (filter_transcripts rt ps)) t
     = map id_f (filter (\<lambda>p. \<not> length_f p < 100 \<and> t \<in> replaced rt ps ` set (transcripts p)) ps)"
proof -
  let ?upd = "\<lambda>p. p\<lparr>transcripts := iter_strs rt (replaced rt ps ` set (transcripts p))\<rparr>"
  have "piece_ids (fst (filter_transcripts rt ps)) t
      = map id_f (filter (\<lambda>p. \<not> length_f p < 100 \<and> t \<in> set (transcripts p)) (map ?upd ps))"
    using piece_ids_distinct [OF second_pass_distinct [OF wf], of ps t]
    by (simp only: fst_filter_transcripts)
  also have "\<dots> = map id_f (filter (\<lambda>p. \<not> length_f p < 100 \<and> t \<in> replaced rt ps ` set (transcripts p)) ps)"
    by (simp add: filter_map comp_def iter_strs_image [OF wf])
  finally show ?thesis .
qed

lemma second_pass_key:
  assumes wf: "wf_runtime rt"
    and dist: "\<forall>p\<in>set ps. distinct (transcripts p)"
    and ids: "\<forall>p\<in>set ps. \<forall>q\<in>set ps. \<not> length_f p < 100 \<and> \<not> length_f q < 100 \<and> id_f p = id_f q
               \<longrightarrow> set (transcripts p) = set (transcripts q)"
    and k: "piece_ids (fst (filter_transcripts rt ps)) t \<noteq> []"
  shows "replaced rt ps t = t \<and> piece_ids ps t \<noteq> [] \<and>
         piece_ids (fst (filter_transcripts rt ps)) t = piece_ids ps t"
proof -
  from k obtain p where p: "p \<in> set ps" "\<not> length_f p < 100"
    and t: "t \<in> replaced rt ps ` set (transcripts p)"
    unfolding piece_ids_second_pass [OF wf dist ids]
    by (auto simp: filter_empty_conv)
  from replaced_image_long [OF wf dist ids p t]
  have fp: "replaced rt ps t = t" and kt: "piece_ids ps t \<noteq> []" by simp_all
  have "filter (\<lambda>p. \<not> length_f p < 100 \<and> t \<in> replaced rt ps ` set (transcripts p)) ps
      = filter (\<lambda>p. \<not> length_f p < 100 \<and> t \<in> set (transcripts p)) ps"
  proof (rule filter_cong [OF refl])
    fix q assume q: "q \<in> set ps"
    show "(\<not> length_f q < 100 \<and> t \<in> replaced rt ps ` set (transcripts q))
        = (\<not> length_f q < 100 \<and> t \<in> set (transcripts q))"
    proof (cases "length_f q < 100")
      case True
      then show ?thesis by simp
    next
      case False
      have "t \<in> replaced rt ps ` set (transcripts q) \<longleftrightarrow> t \<in> set (transcripts q)"
      proof
        assume "t \<in> replaced rt ps ` set (transcripts q)"
        from replaced_image_long [OF wf dist ids q False this] show "t \<in> set (transcripts q)"
          by simp
      next
        assume "t \<in> set (transcripts q)"
        then have "replaced rt ps t \<in> replaced rt ps ` set (transcripts q)" by (rule imageI)
        then show "t \<in> replaced rt ps ` set (transcripts q)" by (simp add: fp)
      qed
      with False show ?thesis by simp
    qed
  qed
  then have "piece_ids (fst (filter_transcripts rt ps)) t = piece_ids ps t"
    by (simp only: piece_ids_second_pass [OF wf dist ids] piece_ids_distinct [OF dist])
  with fp kt show ?thesis by simp
qed

lemma second_pass_groups:
  assumes wf: "wf_runtime rt"
    and dist: "\<forall>p\<in>set ps. distinct (transcripts p)"
    and ids: "\<forall>p\<in>set ps. \<forall>q\<in>set ps. \<not> length_f p < 100 \<and> \<not> length_f q < 100 \<and> id_f p = id_f q
               \<longrightarrow> set (transcripts p) = set (transcripts q)"
  shows "tl (grp rt (fst (filter_transcripts rt ps)) s) = []"
proof -
  let ?ps' = "fst (filter_transcripts rt ps)"
  let ?G = "grp rt ?ps' s"
  have eq: "t = t'" if "t \<in> set ?G" and "t' \<in> set ?G" for t t'
  proof -
    from that have k: "piece_ids ?ps' t \<noteq> []" "piece_ids ?ps' t' \<noteq> []"
      and sg: "signature ?ps' t = signature ?ps' t'"
      by (simp_all add: grp_mem [OF wf])
    from second_pass_key [OF wf dist ids k(1)] second_pass_key [OF wf dist ids k(2)]
    have a: "replaced rt ps t = t" "piece_ids ps t \<noteq> []" "piece_ids ?ps' t = piece_ids ps t"
      and b: "replaced rt ps t' = t'" "piece_ids ps t' \<noteq> []" "piece_ids ?ps' t' = piece_ids ps t'"
      by simp_all
    from sg a(3) b(3) have "signature ps t = signature ps t'" by (simp add: signature_def)
    from replaced_same [OF wf a(2) b(2) this] a(1) b(1) show ?thesis by simp
  qed
  have d: "distinct ?G" by (rule grp_distinct [OF wf])
  show ?thesis
  proof (cases ?G)
    case Nil
    then show ?thesis by simp
  next
    case (Cons x xs)
    show ?thesis
    proof (cases xs)
      case Nil
      with Cons show ?thesis by simp
    next
      case (Cons y ys)
      with \<open>?G = x # xs\<close> have "x \<in> set ?G" "y \<in> set ?G" "x \<noteq> y" using d by auto
      with eq show ?thesis by blast
    qed
  qed
qed

lemma second_pass_no_replacement:
  assumes wf: "wf_runtime rt"
    and dist: "\<forall>p\<in>set ps. distinct (transcripts p)"
    and ids: "\<forall>p\<in>set ps. \<forall>q\<in>set ps. \<not> length_f p < 100 \<and> \<not> length_f q < 100 \<and> id_f p = id_f q
               \<longrightarrow> set (transcripts p) = set (transcripts q)"
  shows "tx_replace rt (e2t rt (t2e (fst (filter_transcripts rt ps)))) = []"
proof (cases "tx_replace rt (e2t rt (t2e (fst (filter_transcripts rt ps))))")
  case Nil
  then show ?thesis .
next
  case (Cons x xs)
  obtain t r where x: "x = (t, r)" by (cases x)
  with Cons have "(t, r) \<in> set (tx_replace rt (e2t rt (t2e (fst (filter_transcripts rt ps)))))"
    by simp
  then obtain s where "t \<in> set (tl (grp rt (fst (filter_transcripts rt ps)) s))"
    by (auto simp: tx_replace_mem [OF wf])
  then show ?thesis by (simp add: second_pass_groups [OF wf dist ids])
qed

text \<open>
  Claim C9, as the code has it. When no piece lists a transcript twice and the pieces of
  length at least 100 that share an identifier have the same transcripts, a second run of
  the collapsing step on the pieces of a first run replaces no transcript, leaves the
  transcript set of every piece as it is, and leaves the set of remaining transcripts as
  it is.
\<close>

theorem filter_transcripts_idempotent:
  assumes wf: "wf_runtime rt"
    and dist: "\<forall>p\<in>set pieces. distinct (transcripts p)"
    and ids: "\<forall>p\<in>set pieces. \<forall>q\<in>set pieces.
               \<not> length_f p < 100 \<and> \<not> length_f q < 100 \<and> id_f p = id_f q
               \<longrightarrow> set (transcripts p) = set (transcripts q)"
  shows "tx_replace rt (e2t rt (t2e (fst (filter_transcripts rt pieces)))) = [] \<and>
     map (\<lambda>p. set (transcripts p)) (fst (filter_transcripts rt (fst (filter_transcripts rt pieces))))
       = map (\<lambda>p. set (transcripts p)) (fst (filter_transcripts rt pieces)) \<and>
     set (snd (filter_transcripts rt (fst (filter_transcripts rt pieces))))
       = set (snd (filter_transcripts rt pieces))"
proof -
  let ?ps' = "fst (filter_transcripts rt pieces)"
  have none: "tx_replace rt (e2t rt (t2e ?ps')) = []"
    by (rule second_pass_no_replacement [OF wf dist ids])
  then have id: "replaced rt ?ps' t = t" for t
    by (simp add: replaced_def dict_of_def get_or_self_def)
  have eqp: "set (iter_strs rt (replaced rt ?ps' ` set (transcripts p))) = set (transcripts p)" for p
    using iter_strs_image [OF wf, of "replaced rt ?ps'" "transcripts p"] by (simp add: id)
  have a: "map (\<lambda>p. set (transcripts p)) (fst (filter_transcripts rt ?ps'))
       = map (\<lambda>p. set (transcripts p)) ?ps'"
    unfolding fst_filter_transcripts [of rt ?ps'] by (simp add: comp_def eqp)
  have "set (snd (filter_transcripts rt ?ps'))
      = (\<Union>p\<in>set (fst (filter_transcripts rt ?ps')). set (transcripts p))"
    by (rule filter_transcripts_props(2) [OF wf])
  also have "\<dots> = \<Union> (set (map (\<lambda>p. set (transcripts p)) (fst (filter_transcripts rt ?ps'))))"
    by simp
  also have "\<dots> = \<Union> (set (map (\<lambda>p. set (transcripts p)) ?ps'))" by (simp only: a)
  also have "\<dots> = set (snd (filter_transcripts rt pieces))"
    using filter_transcripts_props(2) [OF wf, of pieces] by simp
  finally show ?thesis using none a by simp
qed

lemmas chunk_defs = filter_transcripts_def filtered_def t2e_def e2t_def tx_replace_def dict_of_def
      get_or_self_def setdefault_append_def sorted_runtime_def

lemma first_pass_R:
  "map transcripts (fst (filter_transcripts sorted_runtime [piece_R1, piece_R2])) = [[''T3''], [''T3'']]"
  by (simp add: chunk_defs piece_R1_def piece_R2_def Exon_def)

theorem filter_transcripts_idempotent_witness:
  "map transcripts (fst (filter_transcripts sorted_runtime [piece_R1, piece_R2])) = [[''T3''], [''T3'']] \<and>
   tx_replace sorted_runtime (e2t sorted_runtime
       (t2e (fst (filter_transcripts sorted_runtime [piece_R1, piece_R2])))) = [] \<and>
   map (\<lambda>p. set (transcripts p))
       (fst (filter_transcripts sorted_runtime (fst (filter_transcripts sorted_runtime [piece_R1, piece_R2]))))
     = map (\<lambda>p. set (transcripts p)) (fst (filter_transcripts sorted_runtime [piece_R1, piece_R2])) \<and>
   set (snd (filter_transcripts sorted_runtime (fst (filter_transcripts sorted_runtime [piece_R1, piece_R2]))))
     = set (snd (filter_transcripts sorted_runtime [piece_R1, piece_R2]))"
proof -
  have d: "\<forall>p\<in>set [piece_R1, piece_R2]. distinct (transcripts p)"
    by (simp add: piece_R1_def piece_R2_def Exon_def)
  have i: "\<forall>p\<in>set [piece_R1, piece_R2]. \<forall>q\<in>set [piece_R1, piece_R2].
               \<not> length_f p < 100 \<and> \<not> length_f q < 100 \<and> id_f p = id_f q
               \<longrightarrow> set (transcripts p) = set (transcripts q)"
    by (simp add: piece_R1_def piece_R2_def Exon_def)
  from filter_transcripts_idempotent [OF wf_sorted_runtime d i] first_pass_R
  show ?thesis by blast
qed

lemma first_pass_Q:
  "fst (filter_transcripts sorted_runtime [piece_Q1, piece_Q2])
     = [piece_Q1\<lparr>transcripts := [''T1'', ''T3'']\<rparr>, piece_Q2\<lparr>transcripts := [''T1'', ''T3'']\<rparr>]"
  by (simp add: chunk_defs piece_Q1_def piece_Q2_def Exon_def)

text \<open>Two exons with one identifier are returned by \<^verbatim>\<open>cobble\<close> as two pieces with
  that identifier.\<close>

lemma cobble_Q:
  "cobble sorted_runtime [piece_Q1, piece_Q2] [0, 1] False
     = Inr ([piece_Q1, piece_Q2, piece_Q1, piece_Q2], [2, 3])"
  by (simp add: cobble_def ends_def intersect_exons_list_def list_remove_def sorted_runtime_def
      piece_Q1_def piece_Q2_def Exon_def)

text \<open>
  Claim C9 as stated fails: for two pieces with the same identifier, one of the
  transcripts \<open>T1\<close>, \<open>T3\<close> and one of \<open>T2\<close>, \<open>T3\<close>, the first run replaces
  \<open>T2\<close> by \<open>T1\<close>, and a second run on its result replaces \<open>T3\<close> by \<open>T1\<close> and
  changes the transcripts of both pieces.
\<close>

theorem filter_transcripts_second_pass:
  "map transcripts (fst (filter_transcripts sorted_runtime [piece_Q1, piece_Q2]))
     = [[''T1'', ''T3''], [''T1'', ''T3'']] \<and>
   tx_replace sorted_runtime (e2t sorted_runtime
       (t2e (fst (filter_transcripts sorted_runtime [piece_Q1, piece_Q2])))) = [(''T3'', ''T1'')] \<and>
   map transcripts
       (fst (filter_transcripts sorted_runtime (fst (filter_transcripts sorted_runtime [piece_Q1, piece_Q2]))))
     = [[''T1''], [''T1'']]"
  unfolding first_pass_Q
  by (simp add: chunk_defs piece_Q1_def piece_Q2_def Exon_def)

section \<open>Properties of the feature combiner\<close>

lemma GenomicObject_and_Inr:
  "chrom a = chrom b \<Longrightarrow> \<exists>E. GenomicObject_and rt a b = Inr E"
  by (simp add: GenomicObject_and_def)

text \<open>
  Claim C8. Combining two features whose chromosomes differ raises (the failed
  assertion of \<^verbatim>\<open>__and__\<close>, the chromosome-mismatch error) and returns no merged
  feature; with equal chromosomes a merged feature is returned.
\<close>

theorem Exon_and_chrom:
  "(chrom a \<noteq> chrom b \<longrightarrow> Exon_and rt a b = Inl AssertionError) \<and>
   (chrom a = chrom b \<longrightarrow> (\<exists>E. Exon_and rt a b = Inr E))"
  by (simp add: Exon_and_def GenomicObject_and_def)

theorem Exon_and_chrom_witness:
  "Exon_and sorted_runtime exon_E1 exon_E3 = Inl AssertionError \<and>
   (\<exists>E. Exon_and sorted_runtime exon_E1 exon_E2 = Inr E)"
  using Exon_and_chrom [of exon_E1 exon_E3 sorted_runtime]
    Exon_and_chrom [of exon_E1 exon_E2 sorted_runtime]
  by (simp add: exon_E1_def exon_E2_def exon_E3_def Exon_def)

text \<open>
  Claim C5. The merged strand is the floor of the mean: for strands \<open>+1\<close> and \<open>0\<close>
  the combiner yields \<open>0\<close>, not one half (and for \<open>-1\<close> and \<open>0\<close> it yields \<open>-1\<close>).
\<close>

theorem Exon_and_strand_floor:
  "(\<exists>E. Exon_and sorted_runtime exon_E1 (exon_E2\<lparr>strand := 0\<rparr>) = Inr E \<and> strand E = 0 \<and>
        2 * strand E \<noteq> strand exon_E1 + strand (exon_E2\<lparr>strand := 0\<rparr>)) \<and>
   (\<exists>E. Exon_and sorted_runtime (exon_E1\<lparr>strand := - 1\<rparr>) (exon_E2\<lparr>strand := 0\<rparr>) = Inr E \<and>
        strand E = - 1)"
  by (simp add: Exon_and_def GenomicObject_and_def exon_E1_def exon_E2_def Exon_def)

section \<open>Properties of the read counter\<close>

text \<open>
  Claim C7. In stranded mode a read on the expected strand adds its weight to \<open>n\<close>
  and leaves \<open>n_raw\<close> as it was; the unstranded method adds one to \<open>n_raw\<close> for the
  same read.
\<close>

theorem count_stranded_raw_unchanged:
  "count_stranded ((Counter_init True)\<lparr>strand_c := 1\<rparr>)
       \<lparr>tags = [(''NH'', 2)], is_reverse = False\<rparr>
     = Inr \<lparr>n = 1 / 2, n_raw = 0, n_ws = 0, strand_c = 1, stranded = True\<rparr> \<and>
   count_c ((Counter_init False)\<lparr>strand_c := 1\<rparr>)
       \<lparr>tags = [(''NH'', 2)], is_reverse = False\<rparr>
     = Inr \<lparr>n = 1 / 2, n_raw = 1, n_ws = 0, strand_c = 1, stranded = False\<rparr>"
  by (simp add: count_stranded_def count_c_def Counter_init_def)

end
